theory Spec2Isabelle
  imports Main "HOL-Library.Sublist" "HOL-Library.Char_ord" "HOL-Library.List_Lexorder"
    "HOL-Library.AList"
begin

section \<open>Text primitives\<close>

text \<open>
  Python strings are modelled as \<^typ>\<open>string\<close>, one \<^typ>\<open>char\<close> per code point, so
  the model covers texts whose code points lie in 0..255.  On that range the
  class \<^verbatim>\<open>\s\<close> of \<^verbatim>\<open>re\<close> and the characters removed by \<^verbatim>\<open>str.strip()\<close> are the same
  twelve characters, and \<^verbatim>\<open>\d\<close> is the ten ASCII digits.
\<close>

definition nl :: char where
  "nl = CHR 0x0A"

definition is_space :: "char \<Rightarrow> bool" where
  "is_space c = (c \<in> set [CHR 0x09, CHR 0x0A, CHR 0x0B, CHR 0x0C, CHR 0x0D,
                           CHR 0x1C, CHR 0x1D, CHR 0x1E, CHR 0x1F, CHR 0x20,
                           CHR 0x85, CHR 0xA0])"

definition is_digit :: "char \<Rightarrow> bool" where
  "is_digit c = (c \<in> set ''0123456789'')"

definition any_char :: "char \<Rightarrow> bool" where
  "any_char c = True"

definition not_nl :: "char \<Rightarrow> bool" where
  "not_nl c = (c \<noteq> nl)"

definition is_nl :: "char \<Rightarrow> bool" where
  "is_nl c = (c = nl)"

definition not_comma :: "char \<Rightarrow> bool" where
  "not_comma c = (c \<noteq> CHR '','')"

definition rstrip :: "string \<Rightarrow> string" where
  "rstrip s = rev (dropWhile is_space (rev s))"

definition strip :: "string \<Rightarrow> string" where
  "strip s = dropWhile is_space (rstrip s)"

definition startswith :: "string \<Rightarrow> string \<Rightarrow> bool" where
  "startswith s p = prefix p s"

definition endswith :: "string \<Rightarrow> string \<Rightarrow> bool" where
  "endswith s p = suffix p s"

fun join :: "string \<Rightarrow> string list \<Rightarrow> string" where
  "join sep [] = []"
| "join sep [x] = x"
| "join sep (x # y # ys) = x @ sep @ join sep (y # ys)"

text \<open>\<^verbatim>\<open>s.replace(old, new)\<close> for a non-empty \<^verbatim>\<open>old\<close>: every occurrence, left to right,
  without overlap.\<close>

fun replace_all :: "string \<Rightarrow> string \<Rightarrow> string \<Rightarrow> string" where
  "replace_all old new [] = []"
| "replace_all old new (c # cs) =
     (if old \<noteq> [] \<and> prefix old (c # cs)
      then new @ replace_all old new (drop (length old) (c # cs))
      else c # replace_all old new cs)"

text \<open>\<^verbatim>\<open>p in s\<close>.\<close>

fun contains :: "string \<Rightarrow> string \<Rightarrow> bool" where
  "contains p [] = (p = [])"
| "contains p (c # cs) = (prefix p (c # cs) \<or> contains p cs)"

text \<open>\<^verbatim>\<open>re.search(re.escape(point), text)\<close>: the end offset of the first occurrence of
  a literal.\<close>

fun search_end :: "string \<Rightarrow> string \<Rightarrow> nat option" where
  "search_end p [] = (if p = [] then Some 0 else None)"
| "search_end p (c # cs) =
     (if prefix p (c # cs) then Some (length p)
      else map_option Suc (search_end p cs))"

section \<open>Regular expressions as backtracking matchers\<close>

text \<open>
  A pattern is written in continuation-passing style: a matcher takes the
  continuation that matches the rest of the pattern and the remaining text, and
  returns the first result in the order in which Python's backtracking engine
  tries the alternatives (greedy: longest first; lazy: shortest first; an
  alternation: left to right).  A continuation receives the text that is left.
\<close>

type_synonym 'a cont = "string \<Rightarrow> 'a option"

definition lit :: "string \<Rightarrow> 'a cont \<Rightarrow> 'a cont" where
  "lit l k s = (if prefix l s then k (drop (length l) s) else None)"

text \<open>Greedy \<^verbatim>\<open>[p]*\<close>.\<close>

fun star :: "(char \<Rightarrow> bool) \<Rightarrow> 'a cont \<Rightarrow> 'a cont" where
  "star p k [] = k []"
| "star p k (c # cs) =
     (if p c then (case star p k cs of Some r \<Rightarrow> Some r | None \<Rightarrow> k (c # cs))
      else k (c # cs))"

text \<open>Greedy \<^verbatim>\<open>[p]+\<close>.\<close>

definition plus :: "(char \<Rightarrow> bool) \<Rightarrow> 'a cont \<Rightarrow> 'a cont" where
  "plus p k s = (case s of [] \<Rightarrow> None | c # cs \<Rightarrow> if p c then star p k cs else None)"

text \<open>Lazy \<^verbatim>\<open>[p]*?\<close>.\<close>

fun lazy :: "(char \<Rightarrow> bool) \<Rightarrow> 'a cont \<Rightarrow> 'a cont" where
  "lazy p k [] = k []"
| "lazy p k (c # cs) =
     (case k (c # cs) of Some r \<Rightarrow> Some r
      | None \<Rightarrow> if p c then lazy p k cs else None)"

text \<open>Greedy \<^verbatim>\<open>(?:m)?\<close> and the alternation \<^verbatim>\<open>(?:m1|m2)\<close>.\<close>

definition opt :: "('a cont \<Rightarrow> 'a cont) \<Rightarrow> 'a cont \<Rightarrow> 'a cont" where
  "opt m k s = (case m k s of Some r \<Rightarrow> Some r | None \<Rightarrow> k s)"

definition alt :: "('a cont \<Rightarrow> 'a cont) \<Rightarrow> ('a cont \<Rightarrow> 'a cont) \<Rightarrow> 'a cont \<Rightarrow> 'a cont" where
  "alt m1 m2 k s = (case m1 k s of Some r \<Rightarrow> Some r | None \<Rightarrow> m2 k s)"

text \<open>Greedy \<^verbatim>\<open>(?:m)*\<close> for a body \<open>m\<close> that consumes at least one character each
  time (the guard on the length is what makes the recursion terminate; the one
  body it is used with cannot match the empty string).\<close>

function rep :: "('a cont \<Rightarrow> 'a cont) \<Rightarrow> 'a cont \<Rightarrow> 'a cont" where
  "rep m k s =
     (case m (\<lambda>s'. if length s' < length s then rep m k s' else None) s of
        Some r \<Rightarrow> Some r
      | None \<Rightarrow> k s)"
  by pat_completeness auto
termination
  by (relation "measure (\<lambda>(m, k, s). length s)") auto

text \<open>\<^verbatim>\<open>$\<close> under \<^verbatim>\<open>re.MULTILINE\<close> (end of text or just before a newline) and
  without it (end of text or just before a final newline).\<close>

definition eol_multiline :: "'a cont \<Rightarrow> 'a cont" where
  "eol_multiline k s = (if s = [] \<or> hd s = nl then k s else None)"

definition eol_plain :: "'a cont \<Rightarrow> 'a cont" where
  "eol_plain k s = (if s = [] \<or> s = [nl] then k s else None)"

text \<open>The text consumed between two continuation points.\<close>

definition between :: "string \<Rightarrow> string \<Rightarrow> string" where
  "between s r = take (length s - length r) s"

text \<open>
  \<^verbatim>\<open>pattern.subn(repl, text)\<close>: scan from the left; at each offset try the pattern
  (\<open>bol\<close> tells the matcher whether the offset is the start of the text or
  follows a newline, for \<^verbatim>\<open>^\<close> under \<^verbatim>\<open>re.MULTILINE\<close>); replace a match and go on
  after it, otherwise copy one character.  A matcher yields the groups and the
  text left after the match.  Every pattern of this program consumes at least
  one character; a result that consumes nothing is treated as no match.
\<close>

definition consuming :: "string \<Rightarrow> ('g \<times> string) option \<Rightarrow> ('g \<times> string) option" where
  "consuming s res =
     (case res of
        Some (g, r) \<Rightarrow> if length r < length s then Some (g, r) else None
      | None \<Rightarrow> None)"

function subn_from ::
  "(bool \<Rightarrow> string \<Rightarrow> ('g \<times> string) option) \<Rightarrow> ('g \<Rightarrow> string) \<Rightarrow> bool \<Rightarrow> string
     \<Rightarrow> string \<times> nat" where
  "subn_from m repl bol s =
     (case consuming s (m bol s) of
        Some (g, r) \<Rightarrow>
          (let (out, n) = subn_from m repl (last (between s r) = nl) r
           in (repl g @ out, Suc n))
      | None \<Rightarrow>
          (case s of
             [] \<Rightarrow> ([], 0)
           | c # cs \<Rightarrow>
               (let (out, n) = subn_from m repl (c = nl) cs in (c # out, n))))"
  by pat_completeness auto
termination
  apply (relation "measure (\<lambda>(m, repl, bol, s). length s)")
    apply (auto simp: consuming_def split: option.splits if_splits)
  done

definition subn ::
  "(bool \<Rightarrow> string \<Rightarrow> ('g \<times> string) option) \<Rightarrow> ('g \<Rightarrow> string) \<Rightarrow> string \<Rightarrow> string \<times> nat" where
  "subn m repl s = subn_from m repl True s"

definition sub ::
  "(bool \<Rightarrow> string \<Rightarrow> ('g \<times> string) option) \<Rightarrow> ('g \<Rightarrow> string) \<Rightarrow> string \<Rightarrow> string" where
  "sub m repl s = fst (subn m repl s)"

section \<open>Pattern Rule Library\<close>

subsection \<open>Rule A: AppOps\<close>

text \<open>
  \<^verbatim>\<open>(\.method public noteOp(?:NoThrow)?\(.*?\)Z\s*\.registers \d+)(.*?)(\.end method)\<close>
  with \<^verbatim>\<open>re.DOTALL\<close>; the result holds groups 1, 2 and 3.
\<close>

definition pattern_bool ::
  "bool \<Rightarrow> string \<Rightarrow> ((string \<times> string \<times> string) \<times> string) option" where
  "pattern_bool bol s =
     lit ''.method public noteOp'' (opt (lit ''NoThrow'') (lit ''('' (lazy any_char
       (lit '')Z'' (star is_space (lit ''.registers '' (plus is_digit
         (\<lambda>s1. lazy any_char
            (\<lambda>s2. lit ''.end method''
               (\<lambda>s3. Some ((between s s1, between s1 s2, between s2 s3), s3)) s2) s1)))))))) s"

definition replacement_bool :: "string \<times> string \<times> string \<Rightarrow> string" where
  "replacement_bool g =
     (case g of (g1, g2, g3) \<Rightarrow>
        g1 @ ''\<newline>\<newline>    const/4 v0, 0x1\<newline>    return v0\<newline>\<newline>'' @ g3)"

text \<open>
  \<^verbatim>\<open>(\.method public (?:note|check)(?:Proxy)?Op(?:NoThrow)?\(.*?\)I\s*\.registers \d+)(.*?)(\.end method)\<close>
  with \<^verbatim>\<open>re.DOTALL\<close>.
\<close>

definition pattern_int ::
  "bool \<Rightarrow> string \<Rightarrow> ((string \<times> string \<times> string) \<times> string) option" where
  "pattern_int bol s =
     lit ''.method public '' (alt (lit ''note'') (lit ''check'') (opt (lit ''Proxy'')
       (lit ''Op'' (opt (lit ''NoThrow'') (lit ''('' (lazy any_char
         (lit '')I'' (star is_space (lit ''.registers '' (plus is_digit
           (\<lambda>s1. lazy any_char
              (\<lambda>s2. lit ''.end method''
                 (\<lambda>s3. Some ((between s s1, between s1 s2, between s2 s3), s3)) s2) s1))))))))))) s"

definition replacement_int :: "string \<times> string \<times> string \<Rightarrow> string" where
  "replacement_int g =
     (case g of (g1, g2, g3) \<Rightarrow>
        g1 @ ''\<newline>\<newline>    .locals 1\<newline>    const/4 v0, 0x0\<newline>    return v0\<newline>\<newline>'' @ g3)"

text \<open>The text transformation of \<^verbatim>\<open>patch_system_app_ops_helper\<close>: the patched
  content and the two counts.\<close>

definition app_ops_rewrite :: "string \<Rightarrow> string \<times> nat \<times> nat" where
  "app_ops_rewrite content =
     (let (patched_content, count_bool) = subn pattern_bool replacement_bool content;
          (patched_content, count_int) = subn pattern_int replacement_int patched_content
      in (patched_content, count_bool, count_int))"

subsection \<open>Rule B: mock location\<close>

text \<open>The repeated body \<^verbatim>\<open>\s*\.line\s+\d+\s*\n\<close> of group 3.\<close>

definition line_annotation :: "'a cont \<Rightarrow> 'a cont" where
  "line_annotation k =
     star is_space (lit ''.line'' (plus is_space (plus is_digit (star is_space
       (lit [nl] k)))))"

text \<open>
  \<^verbatim>\<open>(\s*(?:const/4|const/16|const)\s+((?:p|v)\d+),\s+0x1\s*\n)((?:\s*\.line\s+\d+\s*\n)*)(\s*invoke-virtual\s+\{[^,]+,\s+\2\}, Landroid/location/Location;->setIsFromMockProvider\(Z\)V)\<close>.
  Group 1 is the constant load; its continuation receives the register (group 2).
  Group 4 is the invocation, with the back-reference \<^verbatim>\<open>\2\<close> as a literal.
\<close>

definition const_load :: "(string \<Rightarrow> 'a cont) \<Rightarrow> 'a cont" where
  "const_load k =
     star is_space (alt (lit ''const/4'') (alt (lit ''const/16'') (lit ''const''))
       (plus is_space
         (\<lambda>sa. alt (lit ''p'') (lit ''v'') (plus is_digit
            (\<lambda>sb. lit '','' (plus is_space (lit ''0x1'' (star is_space (lit [nl]
               (k (between sa sb)))))) sb)) sa)))"

definition invocation :: "string \<Rightarrow> 'a cont \<Rightarrow> 'a cont" where
  "invocation register k =
     star is_space (lit ''invoke-virtual'' (plus is_space (lit ''{''
       (plus not_comma (lit '','' (plus is_space (lit register
         (lit ''}, Landroid/location/Location;->setIsFromMockProvider(Z)V'' k))))))))"

text \<open>The result holds groups 1 (the constant load), 2 (the register), 3 (the
  annotations) and 4 (the invocation).\<close>

definition pattern_mock ::
  "bool \<Rightarrow> string \<Rightarrow> ((string \<times> string \<times> string \<times> string) \<times> string) option" where
  "pattern_mock bol s =
     const_load
       (\<lambda>register s1. rep line_annotation
          (\<lambda>s3. invocation register
             (\<lambda>s4. Some ((between s s1, register, between s1 s3, between s3 s4), s4)) s3) s1) s"

text \<open>\<^verbatim>\<open>0x1\s*$\<close>, used by the replacer on the constant-load line.\<close>

definition pattern_true_at_end :: "bool \<Rightarrow> string \<Rightarrow> (unit \<times> string) option" where
  "pattern_true_at_end bol s =
     lit ''0x1'' (star is_space (eol_plain (\<lambda>r. Some ((), r)))) s"

definition replacer_mock_location :: "string \<times> string \<times> string \<times> string \<Rightarrow> string" where
  "replacer_mock_location g =
     (case g of (const_line_full, register, lines, invoke) \<Rightarrow>
        (let patched_const_line =
               sub pattern_true_at_end (\<lambda>_. ''0x0'') (rstrip const_line_full) @ [nl];
             restore = (if startswith register ''p''
                        then ''\<newline>    const/4 '' @ register @ '', 0x1'' else [])
         in patched_const_line @ lines @ invoke @ restore))"

definition mock_location_rewrite :: "string \<Rightarrow> string \<times> nat" where
  "mock_location_rewrite content = subn pattern_mock replacer_mock_location content"

section \<open>Script Merge Engine\<close>

definition build_edify_line :: "string \<Rightarrow> bool \<Rightarrow> string \<Rightarrow> string" where
  \<open>build_edify_line path_edify is_dir mode_expect =
     (let mode_str = (if length mode_expect = 3 then ''0'' @ mode_expect else mode_expect)
      in if is_dir
         then ''set_metadata_recursive("'' @ path_edify
                @ ''", "uid", 0, "gid", 0, "mode", '' @ mode_str @ '');''
         else ''set_metadata("'' @ path_edify
                @ ''", "uid", 0, "gid", 0, "mode", '' @ mode_str @ '', ''
                @ ''"context", "u:object_r:system_file:s0");'')\<close>

text \<open>
  \<^verbatim>\<open>^\s*set_metadata(?:_recursive)?\(\s*"<path>"\s*,.*?\);\s*$\<close> with \<^verbatim>\<open>re.MULTILINE\<close>,
  where \<^verbatim>\<open><path>\<close> is \<^verbatim>\<open>re.escape(edify_path)\<close>, that is the path as a literal.
\<close>

definition metadata_line_pattern :: "string \<Rightarrow> bool \<Rightarrow> string \<Rightarrow> (unit \<times> string) option" where
  \<open>metadata_line_pattern edify_path bol s =
     (if bol
      then star is_space (lit ''set_metadata'' (opt (lit ''_recursive'') (lit ''(''
             (star is_space (lit (''"'' @ edify_path @ ''"'') (star is_space (lit '',''
               (lazy not_nl (lit '');'' (star is_space
                 (eol_multiline (\<lambda>r. Some ((), r))))))))))))) s
      else None)\<close>

text \<open>\<^verbatim>\<open>\n\s*\n\<close>.\<close>

definition blank_lines_pattern :: "bool \<Rightarrow> string \<Rightarrow> (unit \<times> string) option" where
  "blank_lines_pattern bol s = lit [nl] (star is_space (lit [nl] (\<lambda>r. Some ((), r)))) s"

definition block_start :: string where
  "block_start = ''# === Tool: auto-permission ===''"

definition block_end :: string where
  "block_end = ''# === End Tool Block ===''"

text \<open>\<^verbatim>\<open>\n*# === Tool: auto-permission ===.*?# === End Tool Block ===\n*\<close> with
  \<^verbatim>\<open>re.DOTALL\<close>.\<close>

definition block_pattern :: "bool \<Rightarrow> string \<Rightarrow> (unit \<times> string) option" where
  "block_pattern bol s =
     star is_nl (lit block_start (lazy any_char (lit block_end
       (star is_nl (\<lambda>r. Some ((), r)))))) s"

definition mount_points :: "string list" where
  \<open>mount_points =
     [''mount("ext4", "EMMC", "/dev/block/bootdevice/by-name/system", "/system");'',
      ''run_program("/system/bin/mount", "/system");'']\<close>

text \<open>The loop over \<^verbatim>\<open>mount_points\<close>: the end offset of the first occurrence of the
  first mount directive that occurs, or \<open>-1\<close>.\<close>

fun find_insertion_point :: "string list \<Rightarrow> string \<Rightarrow> int" where
  "find_insertion_point [] current_text = - 1"
| "find_insertion_point (point # points) current_text =
     (case search_end point current_text of
        Some e \<Rightarrow> int e
      | None \<Rightarrow> find_insertion_point points current_text)"

text \<open>The loop over \<^verbatim>\<open>items\<close>; the state is
  \<^verbatim>\<open>(current_text, added, updated, lines_to_add)\<close>.\<close>

fun remove_existing_lines ::
  "(string \<times> bool \<times> string) list \<Rightarrow> string \<times> nat \<times> nat \<times> string list
     \<Rightarrow> string \<times> nat \<times> nat \<times> string list" where
  "remove_existing_lines [] st = st"
| "remove_existing_lines ((edify_path, is_dir, mode) # items)
       (current_text, added, updated, lines_to_add) =
     (let (current_text, count) = subn (metadata_line_pattern edify_path) (\<lambda>_. []) current_text
      in remove_existing_lines items
           (current_text,
            (if count > 0 then added else added + 1),
            (if count > 0 then updated + 1 else updated),
            lines_to_add @ [build_edify_line edify_path is_dir mode]))"

definition managed_block :: "string list \<Rightarrow> string" where
  "managed_block lines_to_add =
     ''\<newline>\<newline># === Tool: auto-permission ===\<newline>'' @ join [nl] lines_to_add
       @ ''\<newline># === End Tool Block ===''"

text \<open>\<^verbatim>\<open>ensure_edify_stat_lines\<close>.  The source builds \<^verbatim>\<open>new_content\<close> around the
  insertion point and then builds \<^verbatim>\<open>final_text\<close>, which is what it returns;
  \<open>ensure_edify_locals\<close> keeps both.\<close>

record edify_locals =
  new_content :: string
  final_text :: string
  added_count :: nat
  updated_count :: nat

definition ensure_edify_locals :: "string \<Rightarrow> (string \<times> bool \<times> string) list \<Rightarrow> edify_locals" where
  "ensure_edify_locals script_text items =
     (let (current_text, added, updated, lines_to_add) =
            remove_existing_lines items (script_text, 0, 0, []);
          current_text = sub blank_lines_pattern (\<lambda>_. [nl]) current_text;
          insertion_point = find_insertion_point mount_points current_text;
          new_lines_str = join [nl] lines_to_add;
          new_content =
            (if insertion_point \<noteq> - 1
             then take (nat insertion_point) current_text
                    @ ''\<newline>\<newline># === Tool: auto-permission ===\<newline>'' @ new_lines_str
                    @ ''\<newline># === End Tool Block ===\<newline>''
                    @ drop (nat insertion_point) current_text
             else strip current_text
                    @ ''\<newline>\<newline># === Tool: auto-permission ===\<newline>'' @ new_lines_str
                    @ ''\<newline># === End Tool Block ===\<newline>'');
          final_text = sub block_pattern (\<lambda>_. []) (strip current_text);
          final_text = final_text @ managed_block lines_to_add
      in \<lparr>new_content = new_content, final_text = final_text,
          added_count = added, updated_count = updated\<rparr>)"

definition ensure_edify_stat_lines ::
  "string \<Rightarrow> (string \<times> bool \<times> string) list \<Rightarrow> string \<times> nat \<times> nat" where
  "ensure_edify_stat_lines script_text items =
     (let l = ensure_edify_locals script_text items
      in (final_text l, added_count l, updated_count l))"

subsection \<open>The script file on disk\<close>

text \<open>
  Files are a map from paths to contents.  What the program cannot decide by
  itself is a parameter of the model: the outcome of each write, whether a file
  can be read, the relative path computed by \<^verbatim>\<open>os.path.relpath\<close>, the clock.
  A write that fails may leave the target as it was (\<open>WriteFailed None\<close>) or
  with some other content (\<open>WriteFailed (Some c)\<close>).
\<close>

datatype 'c write_outcome = Written | WriteFailed "'c option"

definition apply_write ::
  "(string \<rightharpoonup> 'c) \<Rightarrow> string \<Rightarrow> 'c \<Rightarrow> 'c write_outcome \<Rightarrow> (string \<rightharpoonup> 'c) \<times> bool" where
  "apply_write fs path content outcome =
     (case outcome of
        Written \<Rightarrow> (fs(path \<mapsto> content), True)
      | WriteFailed None \<Rightarrow> (fs, False)
      | WriteFailed (Some partial) \<Rightarrow> (fs(path \<mapsto> partial), False))"

text \<open>Reading a text file with the default \<^verbatim>\<open>newline=None\<close>: \<^verbatim>\<open>\r\n\<close> and \<^verbatim>\<open>\r\<close>
  become \<^verbatim>\<open>\n\<close>.\<close>

fun universal_newlines :: "string \<Rightarrow> string" where
  "universal_newlines [] = []"
| "universal_newlines [c] = (if c = CHR 0x0D then [nl] else [c])"
| "universal_newlines (c # d # cs) =
     (if c = CHR 0x0D \<and> d = nl then nl # universal_newlines cs
      else if c = CHR 0x0D then nl # universal_newlines (d # cs)
      else c # universal_newlines (d # cs))"

text \<open>\<^verbatim>\<open>os.path.join\<close> and \<^verbatim>\<open>os.path.basename\<close> for POSIX paths (the second argument
  is never absolute here).\<close>

definition path_join :: "string \<Rightarrow> string \<Rightarrow> string" where
  "path_join a b = (if a = [] \<or> last a = CHR ''/'' then a @ b else a @ ''/'' @ b)"

definition basename :: "string \<Rightarrow> string" where
  "basename p = rev (takeWhile (\<lambda>c. c \<noteq> CHR ''/'') (rev p))"

record script_env =
  relpath :: "string \<Rightarrow> string \<Rightarrow> string option"
  isdir :: "string \<Rightarrow> bool"
  strftime :: string
  copy_outcome :: "string write_outcome"
  read_ok :: bool
  write_outcome :: "string write_outcome"

definition find_updater_script :: "(string \<rightharpoonup> string) \<Rightarrow> string \<Rightarrow> string option" where
  "find_updater_script fs rom_root =
     (let script_path =
            path_join (path_join (path_join (path_join (path_join rom_root ''META-INF'')
              ''com'') ''google'') ''android'') ''updater-script''
      in if fs script_path \<noteq> None then Some script_path else None)"

definition standard_partitions :: "string list" where
  "standard_partitions = [''system'', ''vendor'', ''product'', ''system_ext'', ''odm'', ''oem'']"

text \<open>\<^verbatim>\<open>to_edify_path\<close>.  \<open>relpath env abs_path rom_root\<close> stands for
  \<^verbatim>\<open>Path(os.path.relpath(Path(abs_path).as_posix(), Path(rom_root).as_posix())).as_posix()\<close>,
  \<open>None\<close> when it raises \<^verbatim>\<open>ValueError\<close>; \<^verbatim>\<open>parts[0]\<close> is the text before the first
  slash.\<close>

definition to_edify_path :: "script_env \<Rightarrow> string \<Rightarrow> string \<Rightarrow> (string \<times> bool) option" where
  "to_edify_path env abs_path rom_root =
     (case relpath env abs_path rom_root of
        None \<Rightarrow> None
      | Some rel_path \<Rightarrow>
          (let parts0 = takeWhile (\<lambda>c. c \<noteq> CHR ''/'') rel_path
           in if parts0 \<in> set standard_partitions
              then Some (''/'' @ rel_path, isdir env abs_path)
              else None))"

record entry =
  path_abs :: string
  entry_type :: string
  mode_expect :: string

datatype result_note = NoUpdaterScript | SkippedOutOfScope string | BackupCreated string | ErrorNote

record update_result =
  script_path :: "string option"
  added :: nat
  updated :: nat
  skipped :: nat
  result_notes :: "result_note list"

text \<open>The loop over \<^verbatim>\<open>entries\<close>; the state is \<^verbatim>\<open>(items_to_process, result)\<close>.\<close>

fun collect_items ::
  "script_env \<Rightarrow> string \<Rightarrow> entry list \<Rightarrow> (string \<times> bool \<times> string) list \<times> update_result
     \<Rightarrow> (string \<times> bool \<times> string) list \<times> update_result" where
  "collect_items env rom_root [] st = st"
| "collect_items env rom_root (e # entries) (items_to_process, result) =
     (case to_edify_path env (path_abs e) rom_root of
        Some (edify_path, is_dir) \<Rightarrow>
          (let mode_str = replace_all ''0o'' [] (mode_expect e)
           in collect_items env rom_root entries
                (items_to_process @ [(edify_path, is_dir, mode_str)], result))
      | None \<Rightarrow>
          collect_items env rom_root entries
            (items_to_process,
             result\<lparr>skipped := skipped result + 1,
                    result_notes := result_notes result @ [SkippedOutOfScope (basename (path_abs e))]\<rparr>))"

text \<open>\<^verbatim>\<open>update_updater_script\<close>: the files afterwards and the result dictionary.  Any
  exception inside the \<^verbatim>\<open>try\<close> ends it with an error note.\<close>

definition update_updater_script ::
  "script_env \<Rightarrow> (string \<rightharpoonup> string) \<Rightarrow> entry list \<Rightarrow> string
     \<Rightarrow> (string \<rightharpoonup> string) \<times> update_result" where
  "update_updater_script env fs entries rom_root =
     (let result = \<lparr>script_path = None, added = 0, updated = 0, skipped = 0, result_notes = []\<rparr>
      in case find_updater_script fs rom_root of
           None \<Rightarrow> (fs, result\<lparr>result_notes := result_notes result @ [NoUpdaterScript]\<rparr>)
         | Some path \<Rightarrow>
             (let result = result\<lparr>script_path := Some path\<rparr>;
                  (items_to_process, result) = collect_items env rom_root entries ([], result)
              in if items_to_process = [] then (fs, result)
                 else
                   (let backup_path = path @ ''.bak.'' @ strftime env
                    in case fs path of
                         None \<Rightarrow> (fs, result\<lparr>result_notes := result_notes result @ [ErrorNote]\<rparr>)
                       | Some stored \<Rightarrow>
                           (let (fs, copied) = apply_write fs backup_path stored (copy_outcome env)
                            in if \<not> copied
                               then (fs, result\<lparr>result_notes := result_notes result @ [ErrorNote]\<rparr>)
                               else if \<not> read_ok env
                               then (fs, result\<lparr>result_notes := result_notes result @ [ErrorNote]\<rparr>)
                               else
                                 (let original_content = universal_newlines stored;
                                      (new_content, n_added, n_updated) =
                                         ensure_edify_stat_lines original_content items_to_process;
                                      (fs, wrote) = apply_write fs path new_content (write_outcome env)
                                  in if \<not> wrote
                                     then (fs, result\<lparr>result_notes := result_notes result @ [ErrorNote]\<rparr>)
                                     else (fs, result\<lparr>added := n_added, updated := n_updated,
                                             result_notes := result_notes result
                                               @ [BackupCreated (basename backup_path)]\<rparr>))))))"

section \<open>Permission Propagation Adapter\<close>

datatype perm_log =
    LogStart string | LogWindowsMode | LogChmod nat string | LogChown string
  | LogPermError string | LogRecursive | LogWalkError | LogDone | LogDoneWithErrors
  | LogScriptUpdate

datatype perm_signal = TaskFinished bool | ScriptUpdateFinished update_result

record perm_world =
  file_mode :: "string \<Rightarrow> nat"
  file_owner :: "string \<Rightarrow> nat \<times> nat"
  files :: "string \<rightharpoonup> string"
  perm_log :: "perm_log list"
  perm_signals :: "perm_signal list"

text \<open>
  The thread's attributes and what the operating system answers: \<open>relpath_cwd\<close>
  is \<^verbatim>\<open>os.path.relpath(target_path)\<close> (\<open>None\<close> when it raises), \<open>walk\<close> the pairs
  \<^verbatim>\<open>(root, dirs)\<close> that \<^verbatim>\<open>os.walk\<close> yields and \<open>walk_raises\<close> whether it raises after
  them.
\<close>

record perm_thread =
  action_type :: string
  path :: string
  recursive :: bool
  rom_root :: "string option"
  update_script :: bool
  is_windows :: bool
  relpath_cwd :: "string \<Rightarrow> string option"
  chmod_fails :: "string \<Rightarrow> bool"
  chown_fails :: "string \<Rightarrow> bool"
  walk :: "(string \<times> string list) list"
  walk_raises :: bool
  script_environment :: script_env

text \<open>\<^verbatim>\<open>_set_perms\<close>; the result is \<open>None\<close> when an exception leaves the method.\<close>

definition set_perms :: "perm_thread \<Rightarrow> string \<Rightarrow> bool \<Rightarrow> perm_world \<Rightarrow> perm_world \<times> bool option" where
  "set_perms self target_path is_dir w =
     (let perm_octal = (if is_dir then 493 else 420 :: nat)
      in case relpath_cwd self target_path of
           None \<Rightarrow> (w, None)
         | Some rel_path \<Rightarrow>
             if is_windows self
             then (w\<lparr>perm_log := perm_log w @ [LogChmod perm_octal rel_path, LogChown rel_path]\<rparr>,
                   Some True)
             else if chmod_fails self target_path
             then (w\<lparr>perm_log := perm_log w @ [LogPermError rel_path]\<rparr>, Some False)
             else
               (let w = w\<lparr>file_mode := (file_mode w)(target_path := perm_octal)\<rparr>
                in if chown_fails self target_path
                   then (w\<lparr>perm_log := perm_log w @ [LogPermError rel_path]\<rparr>, Some False)
                   else (w\<lparr>file_owner := (file_owner w)(target_path := (0, 0))\<rparr>, Some True)))"

text \<open>The two nested iterations over \<^verbatim>\<open>os.walk(self.path)\<close>, flattened to the directory
  paths; the third component tells whether \<^verbatim>\<open>_set_perms\<close> raised, which ends the
  iteration.\<close>

fun set_perms_dirs ::
  "perm_thread \<Rightarrow> string list \<Rightarrow> perm_world \<times> bool \<Rightarrow> perm_world \<times> bool \<times> bool" where
  "set_perms_dirs self [] (w, success) = (w, success, False)"
| "set_perms_dirs self (dir_path # dirs) (w, success) =
     (case set_perms self dir_path True w of
        (w, None) \<Rightarrow> (w, success, True)
      | (w, Some ok) \<Rightarrow> set_perms_dirs self dirs (w, if ok then success else False))"

definition walk_dirs :: "perm_thread \<Rightarrow> string list" where
  "walk_dirs self = concat (map (\<lambda>(root, dirs). map (path_join root) dirs) (walk self))"

text \<open>The \<^verbatim>\<open>try\<close> around the iteration: an exception is logged and clears \<^verbatim>\<open>success\<close>.\<close>

definition set_perms_recursive :: "perm_thread \<Rightarrow> perm_world \<Rightarrow> perm_world \<times> bool" where
  "set_perms_recursive self w =
     (case set_perms_dirs self (walk_dirs self) (w, True) of
        (w, success, raised) \<Rightarrow>
          if raised \<or> walk_raises self
          then (w\<lparr>perm_log := perm_log w @ [LogWalkError]\<rparr>, False)
          else (w, success))"

text \<open>The part of \<^verbatim>\<open>PermissionThread.run\<close> after the permissions are set: the
  summary line, the signal and the hook for the updater-script.\<close>

definition perm_finish :: "perm_thread \<Rightarrow> string \<Rightarrow> bool \<Rightarrow> perm_world \<Rightarrow> perm_world" where
  "perm_finish self mode_expect_str success w =
     (let w = w\<lparr>perm_log := perm_log w @ [if success then LogDone else LogDoneWithErrors]\<rparr>;
          w = w\<lparr>perm_signals := perm_signals w @ [TaskFinished success]\<rparr>
      in if success \<and> update_script self \<and> rom_root self \<noteq> None \<and> rom_root self \<noteq> Some []
            \<and> \<not> is_windows self
         then
           (let w = w\<lparr>perm_log := perm_log w @ [LogScriptUpdate]\<rparr>;
                e = \<lparr>path_abs = path self,
                     entry_type = (if action_type self = ''dir'' then ''dir'' else ''file''),
                     mode_expect = mode_expect_str\<rparr>;
                (fs, result) = update_updater_script (script_environment self) (files w) [e]
                                 (the (rom_root self))
            in w\<lparr>files := fs, perm_signals := perm_signals w @ [ScriptUpdateFinished result]\<rparr>)
         else w)"

text \<open>\<^verbatim>\<open>PermissionThread.run\<close>.  An exception that nothing catches ends the thread
  where it is raised.\<close>

definition perm_run :: "perm_thread \<Rightarrow> perm_world \<Rightarrow> perm_world" where
  "perm_run self w =
     (let w = w\<lparr>perm_log := perm_log w @ [LogStart (basename (path self))]\<rparr>;
          w = (if is_windows self then w\<lparr>perm_log := perm_log w @ [LogWindowsMode]\<rparr> else w)
      in if action_type self = ''apk''
         then (case set_perms self (path self) False w of
                 (w, None) \<Rightarrow> w
               | (w, Some success) \<Rightarrow> perm_finish self ''644'' success w)
         else if action_type self = ''dir''
         then (case set_perms self (path self) True w of
                 (w, None) \<Rightarrow> w
               | (w, Some ok) \<Rightarrow>
                   if \<not> ok then w\<lparr>perm_signals := perm_signals w @ [TaskFinished False]\<rparr>
                   else if recursive self
                   then
                     (let w = w\<lparr>perm_log := perm_log w @ [LogRecursive]\<rparr>
                      in case set_perms_recursive self w of
                           (w, success) \<Rightarrow> perm_finish self ''755'' success w)
                   else perm_finish self ''755'' True w)
         else perm_finish self [] True w)"

section \<open>Patch Pipeline Controller\<close>

subsection \<open>The working directory\<close>

text \<open>
  The temporary directory holds the disassembled text files, as an association
  list from path to text (the text as Python reads it).  \<open>listing\<close> is what
  \<^verbatim>\<open>os.listdir\<close> and \<^verbatim>\<open>os.walk\<close> answer for it: the top-level entries, each with the
  pairs \<^verbatim>\<open>(root, files)\<close> of its walk.
\<close>

record dir_entry =
  entry_name :: string
  entry_is_dir :: bool
  entry_walk :: "(string \<times> string list) list"

type_synonym archive = "(string \<times> string) list"

datatype reason =
    MissingJava | InvalidJar | DecompileFailed | NoPatchApplied | RecompileFailed
  | WriteError | Patched

datatype signal = Progress nat | PatchFinished bool reason | CancelledSignal

text \<open>
  How writing the output archive goes wrong, if it does: the archive cannot be
  opened; an exception between two members, after \<open>n\<close> members were written;
  an exception while member \<open>n\<close> (counted from 0) is written, after \<open>k\<close>
  characters of it; the move of the temporary file fails.
\<close>

datatype repack_failure =
  NoFailure | OpenFails | FailsAfter nat | FailsDuring nat nat | MoveFails

record gps_world =
  archives :: "string \<rightharpoonup> archive"
  temp_dir :: bool
  smali_files :: "(string \<times> string) list"
  signals :: "signal list"
  crashed :: bool

text \<open>
  The thread's attributes, and the answers of its environment: which jars
  exist, the value of \<^verbatim>\<open>_cancel_requested\<close> at each of the six checks, the exit
  status of the disassembler for each unit and the files it leaves, which of
  them cannot be read or written, the exit status of the reassembler for each
  directory (with and without the API level) and the bytes it produces, and
  where writing the output archive fails, if it does.
\<close>

record gps_thread =
  input_file :: string
  patched_dir :: string
  overwrite_original :: bool
  jar_exists :: "string \<Rightarrow> bool"
  cancel_requested :: "nat \<Rightarrow> bool"
  baksmali_ok :: "string \<Rightarrow> bool"
  listing :: "dir_entry list"
  disassembly :: "(string \<times> string) list"
  unreadable :: "string \<Rightarrow> bool"
  unwritable :: "string \<Rightarrow> bool"
  smali_ok_api :: "string \<Rightarrow> bool"
  smali_ok_default :: "string \<Rightarrow> bool"
  assembled :: "string \<Rightarrow> string"
  repack_fails :: repack_failure

text \<open>\<^verbatim>\<open>find_smali_file\<close> (its log lines and the diagnostic scan left out).\<close>

fun find_in_walk :: "string \<Rightarrow> (string \<times> string list) list \<Rightarrow> string option" where
  "find_in_walk primary_name [] = None"
| "find_in_walk primary_name ((root, fs) # rest) =
     (if primary_name \<in> set fs then Some (path_join root primary_name)
      else find_in_walk primary_name rest)"

fun find_smali_file :: "dir_entry list \<Rightarrow> string \<Rightarrow> string option" where
  "find_smali_file [] primary_name = None"
| "find_smali_file (subdir # rest) primary_name =
     (if entry_is_dir subdir \<and> startswith (entry_name subdir) ''smali''
      then (case find_in_walk primary_name (entry_walk subdir) of
              Some found_path \<Rightarrow> Some found_path
            | None \<Rightarrow> find_smali_file rest primary_name)
      else find_smali_file rest primary_name)"

definition read_smali :: "gps_thread \<Rightarrow> gps_world \<Rightarrow> string \<Rightarrow> string option" where
  "read_smali self w file_path =
     (if unreadable self file_path then None else map_of (smali_files w) file_path)"

definition write_smali :: "gps_world \<Rightarrow> string \<Rightarrow> string \<Rightarrow> gps_world" where
  "write_smali w file_path content =
     w\<lparr>smali_files := AList.update file_path content (smali_files w)\<rparr>"

text \<open>\<^verbatim>\<open>patch_system_app_ops_helper\<close> and \<^verbatim>\<open>patch_mock_location_provider\<close>.\<close>

definition patch_system_app_ops_helper :: "gps_thread \<Rightarrow> gps_world \<Rightarrow> gps_world \<times> bool" where
  "patch_system_app_ops_helper self w =
     (case find_smali_file (listing self) ''SystemAppOpsHelper.smali'' of
        None \<Rightarrow> (w, False)
      | Some target_file_path \<Rightarrow>
          (case read_smali self w target_file_path of
             None \<Rightarrow> (w, False)
           | Some content \<Rightarrow>
               (let (patched_content, count_bool, count_int) = app_ops_rewrite content
                in if count_bool = 0 \<and> count_int = 0 then (w, False)
                   else if unwritable self target_file_path then (w, False)
                   else (write_smali w target_file_path patched_content, True))))"

definition patch_mock_location_provider :: "gps_thread \<Rightarrow> gps_world \<Rightarrow> gps_world \<times> bool" where
  "patch_mock_location_provider self w =
     (case find_smali_file (listing self) ''MockLocationProvider.smali'' of
        None \<Rightarrow> (w, False)
      | Some target_file_path \<Rightarrow>
          (case read_smali self w target_file_path of
             None \<Rightarrow> (w, False)
           | Some content \<Rightarrow>
               (let (patched_content, count) = mock_location_rewrite content
                in if count > 0
                   then (if unwritable self target_file_path then (w, False)
                         else (write_smali w target_file_path patched_content, True))
                   else (w, False))))"

subsection \<open>Rule C: debug lines\<close>

text \<open>\<^verbatim>\<open>readlines()\<close>, and \<^verbatim>\<open>^\s*\.line\s+\d+\s*$\<close> tried with \<^verbatim>\<open>match\<close> on one line.\<close>

fun readlines :: "string \<Rightarrow> string list" where
  "readlines [] = []"
| "readlines (c # cs) =
     (if c = nl then [c] # readlines cs
      else (case readlines cs of [] \<Rightarrow> [[c]] | l # ls \<Rightarrow> (c # l) # ls))"

definition line_num_pattern :: "string \<Rightarrow> bool" where
  "line_num_pattern line =
     (star is_space (lit ''.line'' (plus is_space (plus is_digit (star is_space
        (eol_plain (\<lambda>r. Some ())))))) line \<noteq> None)"

definition strip_debug_lines :: "string \<Rightarrow> string" where
  "strip_debug_lines content = concat (filter (\<lambda>line. \<not> line_num_pattern line) (readlines content))"

text \<open>\<^verbatim>\<open>remove_debug_lines\<close>: every \<^verbatim>\<open>.smali\<close> file is rewritten; a file that
  cannot be opened is logged and left as it is.\<close>

definition strip_all_debug_lines ::
  "gps_thread \<Rightarrow> (string \<times> string) list \<Rightarrow> (string \<times> string) list" where
  "strip_all_debug_lines self fs =
     map (\<lambda>(file_path, content).
            if endswith file_path ''.smali'' \<and> \<not> unreadable self file_path
               \<and> \<not> unwritable self file_path
            then (file_path, strip_debug_lines content) else (file_path, content)) fs"

definition remove_debug_lines :: "gps_thread \<Rightarrow> gps_world \<Rightarrow> gps_world" where
  "remove_debug_lines self w = w\<lparr>smali_files := strip_all_debug_lines self (smali_files w)\<rparr>"

subsection \<open>Repacking\<close>

definition is_dex :: "string \<Rightarrow> bool" where
  "is_dex f = (startswith f ''classes'' \<and> endswith f ''.dex'')"

text \<open>The keys of \<^verbatim>\<open>recompiled_dex_files\<close> in insertion order.\<close>

fun dict_keys :: "string list \<Rightarrow> string list \<Rightarrow> string list" where
  "dict_keys seen [] = seen"
| "dict_keys seen (k # ks) = dict_keys (if k \<in> set seen then seen else seen @ [k]) ks"

definition smali_dirs :: "gps_thread \<Rightarrow> string list" where
  "smali_dirs self =
     sort (map entry_name
       (filter (\<lambda>d. startswith (entry_name d) ''smali'' \<and> entry_is_dir d) (listing self)))"

definition dex_name_of :: "string \<Rightarrow> string" where
  "dex_name_of smali_dir_name =
     (if smali_dir_name = ''smali'' then ''classes.dex''
      else replace_all ''smali_'' [] smali_dir_name @ ''.dex'')"

text \<open>What the output archive is to hold: the members of the input that are not
  units, then the reassembled units.\<close>

definition repacked_members :: "gps_thread \<Rightarrow> archive \<Rightarrow> archive" where
  "repacked_members self zin =
     filter (\<lambda>(name, data). \<not> is_dex name) zin
       @ map (\<lambda>dex_name. (dex_name, assembled self dex_name))
           (dict_keys [] (map dex_name_of (smali_dirs self)))"

text \<open>The progress signals of the copy loop, one for every tenth member copied
  (\<^verbatim>\<open>int(copied_count * 8 / total_items)\<close> is the integer quotient).\<close>

definition copy_progress :: "nat \<Rightarrow> nat \<Rightarrow> signal list" where
  "copy_progress total_items copied =
     map (\<lambda>c. Progress (if total_items > 0 then 90 + c * 8 div total_items else 90))
       (filter (\<lambda>c. c mod 10 = 0) [1..<Suc copied])"

text \<open>
  Writing the members into a new archive at \<open>target\<close>.  Opening the archive for
  writing creates it empty.  A member is written in chunks inside
  \<^verbatim>\<open>with zout.open(...)\<close> (in \<^verbatim>\<open>zout.write\<close> for a reassembled unit), and the
  archive inside \<^verbatim>\<open>with zipfile.ZipFile(...)\<close>: when an exception leaves these
  blocks, the member in progress is closed with the part of it that was
  written, and the archive is closed with the members it has.  The result tells
  whether the archive was written without an exception.
\<close>

definition write_archive ::
  "gps_thread \<Rightarrow> string \<Rightarrow> archive \<Rightarrow> gps_world \<Rightarrow> gps_world \<times> bool" where
  "write_archive self target zin w =
     (let members = repacked_members self zin;
          total_items = length (filter (\<lambda>(name, data). \<not> is_dex name) zin)
      in case repack_fails self of
           OpenFails \<Rightarrow> (w, False)
         | FailsAfter n \<Rightarrow>
             (w\<lparr>archives := (archives w)(target \<mapsto> take n members),
                signals := signals w @ copy_progress total_items (min n total_items)\<rparr>, False)
         | FailsDuring n k \<Rightarrow>
             (w\<lparr>archives := (archives w)(target \<mapsto>
                  take n members
                    @ map (\<lambda>(name, data). (name, take k data)) (take 1 (drop n members))),
                signals := signals w @ copy_progress total_items (min n total_items)\<rparr>, False)
         | _ \<Rightarrow>
             (w\<lparr>archives := (archives w)(target \<mapsto> members),
                signals := signals w @ copy_progress total_items total_items\<rparr>, True))"

text \<open>The two branches of the saving logic of \<^verbatim>\<open>run\<close>.\<close>

definition save_overwrite :: "gps_thread \<Rightarrow> archive \<Rightarrow> gps_world \<Rightarrow> gps_world" where
  "save_overwrite self zin w =
     (let output_path = input_file self;
          temp_zip_path = output_path @ ''.tmp'';
          (w, ok) = write_archive self temp_zip_path zin w
      in if ok \<and> repack_fails self \<noteq> MoveFails
         then
           (let w = w\<lparr>archives := (archives w)(output_path := archives w temp_zip_path,
                                                  temp_zip_path := None)\<rparr>
            in w\<lparr>signals := signals w @ [Progress 100, PatchFinished True Patched]\<rparr>)
         else
           (let w = w\<lparr>archives := (archives w)(temp_zip_path := None)\<rparr>
            in w\<lparr>signals := signals w @ [PatchFinished False WriteError]\<rparr>))"

definition save_side_output :: "gps_thread \<Rightarrow> archive \<Rightarrow> gps_world \<Rightarrow> gps_world" where
  "save_side_output self zin w =
     (let output_dir = patched_dir self;
          base_name = basename (input_file self);
          output_path = path_join output_dir base_name;
          (w, ok) = write_archive self output_path zin w
      in if ok
         then w\<lparr>signals := signals w @ [Progress 100, PatchFinished True Patched]\<rparr>
         else w\<lparr>signals := signals w @ [PatchFinished False WriteError]\<rparr>)"

subsection \<open>The run\<close>

text \<open>\<^verbatim>\<open>_check_cancel\<close> at the \<open>k\<close>-th check of the run.\<close>

definition check_cancel :: "gps_thread \<Rightarrow> nat \<Rightarrow> gps_world \<Rightarrow> gps_world \<times> bool" where
  "check_cancel self k w =
     (if cancel_requested self k
      then (w\<lparr>signals := signals w @ [CancelledSignal]\<rparr>, True)
      else (w, False))"

text \<open>The stages of \<^verbatim>\<open>run\<close> inside its \<^verbatim>\<open>try\<close>, last first.\<close>

definition run_save :: "gps_thread \<Rightarrow> gps_world \<Rightarrow> gps_world" where
  "run_save self w =
     (case archives w (input_file self) of
        None \<Rightarrow> w\<lparr>signals := signals w @ [PatchFinished False WriteError]\<rparr>
      | Some zin \<Rightarrow>
          (if overwrite_original self then save_overwrite self zin w
           else save_side_output self zin w))"

definition run_recompile :: "gps_thread \<Rightarrow> gps_world \<Rightarrow> gps_world" where
  "run_recompile self w =
     (if \<not> list_all (\<lambda>d. smali_ok_api self d \<or> smali_ok_default self d) (smali_dirs self)
      then w\<lparr>signals := signals w @ [PatchFinished False RecompileFailed]\<rparr>
      else
        (case check_cancel self 5 w of
           (w, True) \<Rightarrow> w
         | (w, False) \<Rightarrow> run_save self (w\<lparr>signals := signals w @ [Progress 90]\<rparr>)))"

definition run_patch :: "gps_thread \<Rightarrow> gps_world \<Rightarrow> gps_world" where
  "run_patch self w =
     (let w = w\<lparr>signals := signals w @ [Progress 40]\<rparr>;
          w = remove_debug_lines self w;
          w = w\<lparr>signals := signals w @ [Progress 50]\<rparr>
      in case check_cancel self 3 w of
           (w, True) \<Rightarrow> w
         | (w, False) \<Rightarrow>
             (let (w, patched1) = patch_system_app_ops_helper self w;
                  (w, patched2) = patch_mock_location_provider self w;
                  w = w\<lparr>signals := signals w @ [Progress 60]\<rparr>
              in case check_cancel self 4 w of
                   (w, True) \<Rightarrow> w
                 | (w, False) \<Rightarrow>
                     if \<not> patched1 \<and> \<not> patched2
                     then w\<lparr>signals := signals w @ [PatchFinished False NoPatchApplied]\<rparr>
                     else run_recompile self w))"

definition run_decompile :: "gps_thread \<Rightarrow> string list \<Rightarrow> gps_world \<Rightarrow> gps_world" where
  "run_decompile self dex_files w =
     (let w = w\<lparr>smali_files := disassembly self\<rparr>
      in if \<not> list_all (baksmali_ok self) dex_files
         then w\<lparr>signals := signals w @ [PatchFinished False DecompileFailed]\<rparr>
         else
           (case check_cancel self 2 w of
              (w, True) \<Rightarrow> w
            | (w, False) \<Rightarrow> run_patch self w))"

definition run_body :: "gps_thread \<Rightarrow> gps_world \<Rightarrow> gps_world" where
  "run_body self w =
     (case archives w (input_file self) of
        None \<Rightarrow> w\<lparr>crashed := True\<rparr>
      | Some zin \<Rightarrow>
          (let dex_files = sort (filter is_dex (map fst zin))
           in if dex_files = []
              then w\<lparr>signals := signals w @ [PatchFinished False InvalidJar]\<rparr>
              else
                (let w = w\<lparr>signals := signals w @ [Progress 10]\<rparr>
                 in case check_cancel self 1 w of
                      (w, True) \<Rightarrow> w
                    | (w, False) \<Rightarrow> run_decompile self dex_files w)))"

text \<open>\<^verbatim>\<open>GpsPatcherThread.run\<close>; the \<^verbatim>\<open>finally\<close> removes the temporary directory.\<close>

definition run :: "gps_thread \<Rightarrow> gps_world \<Rightarrow> gps_world" where
  "run self w =
     (if \<not> list_all (jar_exists self) [''baksmali.jar'', ''smali.jar'']
      then w\<lparr>signals := signals w @ [PatchFinished False MissingJava]\<rparr>
      else
        (case check_cancel self 0 w of
           (w, True) \<Rightarrow> w
         | (w, False) \<Rightarrow>
             (let w = w\<lparr>signals := signals w @ [Progress 5]\<rparr>;
                  w = w\<lparr>temp_dir := True\<rparr>;
                  w = run_body self w
              in w\<lparr>temp_dir := False, smali_files := []\<rparr>)))"

section \<open>Vocabulary of the claims\<close>

text \<open>
  The occurrences that Rule A and Rule B apply in a run: those counted in the
  rule's target file as the rule reads it (after Rule C), provided the file is
  found, read and written back.
\<close>

definition rule_a_occurrences :: "gps_thread \<Rightarrow> nat" where
  "rule_a_occurrences self =
     (case find_smali_file (listing self) ''SystemAppOpsHelper.smali'' of
        None \<Rightarrow> 0
      | Some file_path \<Rightarrow>
          if unreadable self file_path \<or> unwritable self file_path then 0
          else (case map_of (strip_all_debug_lines self (disassembly self)) file_path of
                  None \<Rightarrow> 0
                | Some content \<Rightarrow>
                    (case app_ops_rewrite content of
                       (patched_content, count_bool, count_int) \<Rightarrow> count_bool + count_int)))"

definition rule_b_occurrences :: "gps_thread \<Rightarrow> nat" where
  "rule_b_occurrences self =
     (case find_smali_file (listing self) ''MockLocationProvider.smali'' of
        None \<Rightarrow> 0
      | Some file_path \<Rightarrow>
          if unreadable self file_path \<or> unwritable self file_path then 0
          else (case map_of (strip_all_debug_lines self (disassembly self)) file_path of
                  None \<Rightarrow> 0
                | Some content \<Rightarrow> snd (mock_location_rewrite content)))"

text \<open>The text without its white space.\<close>

definition content :: "string \<Rightarrow> string" where
  "content t = filter (\<lambda>c. \<not> is_space c) t"

text \<open>A text in which neither marker text occurs.\<close>

definition marker_free :: "string \<Rightarrow> bool" where
  "marker_free t \<longleftrightarrow> \<not> contains block_start t \<and> \<not> contains block_end t"

text \<open>What the merge puts before the block it appends.\<close>

definition merge_body :: "string \<Rightarrow> (string \<times> bool \<times> string) list \<Rightarrow> string" where
  "merge_body script_text items =
     sub block_pattern (\<lambda>_. [])
       (strip (sub blank_lines_pattern (\<lambda>_. [nl])
          (fst (remove_existing_lines items (script_text, 0, 0, [])))))"

text \<open>Two states of the permission adapter agree on everything but the log.\<close>

definition same_disk :: "perm_world \<Rightarrow> perm_world \<Rightarrow> bool" where
  "same_disk w w' \<longleftrightarrow>
     file_mode w' = file_mode w \<and> file_owner w' = file_owner w
     \<and> files w' = files w \<and> perm_signals w' = perm_signals w"

section \<open>Fixtures\<close>

text \<open>A parameter register is set, flagged and then read by an array-length
  instruction.\<close>

definition mock_fixture :: string where
  \<open>mock_fixture =
     ''    const/4 p1, 0x1\<newline>\<newline>    .line 120\<newline>    invoke-virtual {v0, p1}, Landroid/location/Location;->setIsFromMockProvider(Z)V\<newline>\<newline>    array-length v1, p1\<newline>''\<close>

text \<open>The flag loaded into a local register.\<close>

definition mock_local_fixture :: string where
  \<open>mock_local_fixture =
     ''    const/16 v2, 0x1\<newline>    invoke-virtual {v0, v2}, Landroid/location/Location;->setIsFromMockProvider(Z)V\<newline>    return-void\<newline>''\<close>

text \<open>A class with a check-only method and no note method.\<close>

definition check_only_fixture :: string where
  \<open>check_only_fixture =
     ''.method public checkOpNoThrow(I)Z\<newline>    .registers 3\<newline>\<newline>    const/4 v0, 0x0\<newline>\<newline>    return v0\<newline>.end method\<newline>''\<close>

text \<open>An archive with one unit, disassembled into the two target files; the
  side-output directory already holds a file of the archive's name.\<close>

definition demo_archive :: archive where
  "demo_archive = [(''META-INF/MANIFEST.MF'', ''manifest''), (''classes.dex'', ''old unit'')]"

definition demo_thread :: gps_thread where
  "demo_thread =
     \<lparr>input_file = ''/rom/services.jar'', patched_dir = ''/tool/Patched'',
      overwrite_original = False,
      jar_exists = (\<lambda>jar. True), cancel_requested = (\<lambda>k. False),
      baksmali_ok = (\<lambda>dex. True),
      listing =
        [\<lparr>entry_name = ''classes.dex'', entry_is_dir = False, entry_walk = []\<rparr>,
         \<lparr>entry_name = ''smali'', entry_is_dir = True,
          entry_walk =
            [(''/tmp/gps/smali'', []),
             (''/tmp/gps/smali/loc'',
              [''SystemAppOpsHelper.smali'', ''MockLocationProvider.smali''])]\<rparr>],
      disassembly =
        [(''/tmp/gps/smali/loc/SystemAppOpsHelper.smali'', check_only_fixture),
         (''/tmp/gps/smali/loc/MockLocationProvider.smali'', mock_fixture)],
      unreadable = (\<lambda>f. False), unwritable = (\<lambda>f. False),
      smali_ok_api = (\<lambda>d. True), smali_ok_default = (\<lambda>d. True),
      assembled = (\<lambda>dex_name. ''new unit''), repack_fails = NoFailure\<rparr>"

definition demo_world :: gps_world where
  "demo_world =
     \<lparr>archives = [''/rom/services.jar'' \<mapsto> demo_archive,
                  ''/tool/Patched/services.jar'' \<mapsto> [(''earlier'', ''output'')]],
      temp_dir = False, smali_files = [], signals = [], crashed = False\<rparr>"

text \<open>A check-only method that returns an integer.\<close>

definition check_int_fixture :: string where
  \<open>check_int_fixture =
     ''.method public checkOpNoThrow(ILjava/lang/String;)I\<newline>    .registers 4\<newline>\<newline>    invoke-virtual {p0, p1, p2}, Lhelper;->probe(ILjava/lang/String;)I\<newline>\<newline>    move-result v0\<newline>\<newline>    return v0\<newline>.end method\<newline>''\<close>

text \<open>A note method that returns nothing, followed by a check-only method that
  returns a boolean.\<close>

definition note_void_then_check_fixture :: string where
  \<open>note_void_then_check_fixture =
     ''.method public noteOp(I)V\<newline>    .registers 2\<newline>\<newline>    return-void\<newline>.end method\<newline>\<newline>.method public checkOpNoThrow(I)Z\<newline>    .registers 3\<newline>\<newline>    invoke-direct {p0, p1}, Lhelper;->probe(I)Z\<newline>\<newline>    move-result v0\<newline>\<newline>    return v0\<newline>.end method\<newline>''\<close>

text \<open>A script in which the start marker of a managed block is left without its
  end marker.\<close>

definition unterminated_marker_script :: string where
  \<open>unterminated_marker_script =
     ''ui_print("x");\<newline># === Tool: auto-permission ===\<newline>set_metadata("/system/bin/sh", "uid", 0, "gid", 2000, "mode", 0755);\<newline>''\<close>

text \<open>A script that mounts the system partition and then extracts files.\<close>

definition mounting_script :: string where
  \<open>mounting_script =
     ''mount("ext4", "EMMC", "/dev/block/bootdevice/by-name/system", "/system");\<newline>package_extract_dir("system", "/system");\<newline>''\<close>

text \<open>A script with comments and a directive for \<^verbatim>\<open>/system/bin\<close>.\<close>

definition commented_script :: string where
  \<open>commented_script =
     ''# install script\<newline>ui_print("x");\<newline>set_metadata_recursive("/system/bin", "uid", 0, "gid", 0, "mode", 0700);\<newline>ui_print("# done");\<newline>''\<close>

definition app_items :: "(string \<times> bool \<times> string) list" where
  "app_items = [(''/system/app'', True, ''755'')]"

text \<open>Variants of the run: cancelled after disassembly; failing while the output
  archive is written.\<close>

definition cancelling_thread :: gps_thread where
  "cancelling_thread = demo_thread\<lparr>cancel_requested := (\<lambda>k. k = 2)\<rparr>"

definition failing_side_output_thread :: gps_thread where
  "failing_side_output_thread = demo_thread\<lparr>repack_fails := FailsAfter 1\<rparr>"

text \<open>A ROM tree with an updater-script, one directory entry, and a backup that
  fails.\<close>

definition demo_script_env :: script_env where
  "demo_script_env =
     \<lparr>relpath = (\<lambda>abs_path root. Some (drop (Suc (length root)) abs_path)),
      isdir = (\<lambda>p. True), strftime = ''20240101-120000'',
      copy_outcome = WriteFailed None, read_ok = True, write_outcome = Written\<rparr>"

definition demo_script_files :: "string \<rightharpoonup> string" where
  "demo_script_files =
     [''/rom/META-INF/com/google/android/updater-script'' \<mapsto> mounting_script]"

definition demo_entries :: "entry list" where
  "demo_entries = [\<lparr>path_abs = ''/rom/system/app'', entry_type = ''dir'', mode_expect = ''755''\<rparr>]"

text \<open>A recursive directory request on Windows, with the script update asked for.\<close>

definition demo_perm_thread :: perm_thread where
  "demo_perm_thread =
     \<lparr>action_type = ''dir'', path = ''/rom/system/app'', recursive = True,
      rom_root = Some ''/rom'', update_script = True, is_windows = True,
      relpath_cwd = (\<lambda>p. Some p), chmod_fails = (\<lambda>p. False), chown_fails = (\<lambda>p. False),
      walk = [(''/rom/system/app'', [''Maps'', ''Camera'']), (''/rom/system/app/Maps'', [])],
      walk_raises = False,
      script_environment = demo_script_env\<lparr>copy_outcome := Written\<rparr>\<rparr>"

definition demo_perm_world :: perm_world where
  "demo_perm_world =
     \<lparr>file_mode = (\<lambda>p. 448), file_owner = (\<lambda>p. (1000, 1000)),
      files = demo_script_files, perm_log = [], perm_signals = []\<rparr>"

text \<open>Entries of which one path contains the text of the end marker; a script in
  which markers are nested.\<close>

definition marker_named_items :: "(string \<times> bool \<times> string) list" where
  "marker_named_items =
     [(''/system/# === End Tool Block ==='', True, ''755''), (''/system/app'', True, ''755'')]"

definition bin_items :: "(string \<times> bool \<times> string) list" where
  "bin_items = [(''/system/bin'', True, ''755'')]"

definition nested_marker_script :: string where
  \<open>nested_marker_script =
     ''# === Tool: auto-# === Tool: auto-# === Tool: auto-permission ===x# === End Tool Block ===permission ===y# === End Tool Block ===permission ===z# === End Tool Block ===''\<close>

section \<open>Properties of the matchers\<close>

declare subn_from.simps [simp del]
declare rep.simps [simp del]

lemma between_append [simp]: "between (w @ t) t = w"
  by (simp add: between_def)

lemma between_self [simp]: "between t t = []"
  by (simp add: between_def)

lemma lit_SomeD: "lit l k s = Some r \<Longrightarrow> \<exists>t. s = l @ t \<and> k t = Some r"
  by (auto simp: lit_def prefix_def split: if_splits)

lemma lit_append [simp]: "lit l k (l @ t) = k t"
  by (simp add: lit_def)

lemma star_SomeD: "star p k s = Some r \<Longrightarrow> \<exists>w t. s = w @ t \<and> list_all p w \<and> k t = Some r"
proof (induction s)
  case Nil
  then show ?case by auto
next
  case (Cons c cs)
  show ?case
  proof (cases "p c \<and> star p k cs = Some r")
    case True
    with Cons.IH obtain w t where "cs = w @ t" "list_all p w" "k t = Some r" by blast
    then have "c # cs = (c # w) @ t \<and> list_all p (c # w) \<and> k t = Some r" using True by simp
    then show ?thesis by blast
  next
    case False
    with Cons.prems have "k (c # cs) = Some r" by (auto split: if_splits option.splits)
    then have "c # cs = [] @ (c # cs) \<and> list_all p [] \<and> k (c # cs) = Some r" by simp
    then show ?thesis by blast
  qed
qed

lemma plus_SomeD:
  "plus p k s = Some r \<Longrightarrow> \<exists>w t. s = w @ t \<and> w \<noteq> [] \<and> list_all p w \<and> k t = Some r"
proof -
  assume a: "plus p k s = Some r"
  then obtain c cs where s: "s = c # cs" and pc: "p c" and st: "star p k cs = Some r"
    by (auto simp: plus_def split: list.splits if_splits)
  from star_SomeD [OF st] obtain w t where "cs = w @ t" "list_all p w" "k t = Some r" by blast
  then have "s = (c # w) @ t \<and> c # w \<noteq> [] \<and> list_all p (c # w) \<and> k t = Some r"
    using s pc by simp
  then show ?thesis by blast
qed

lemma lazy_SomeD: "lazy p k s = Some r \<Longrightarrow> \<exists>w t. s = w @ t \<and> list_all p w \<and> k t = Some r"
proof (induction s)
  case Nil
  then show ?case by auto
next
  case (Cons c cs)
  show ?case
  proof (cases "k (c # cs)")
    case (Some a)
    with Cons.prems have "k (c # cs) = Some r" by simp
    then have "c # cs = [] @ (c # cs) \<and> list_all p [] \<and> k (c # cs) = Some r" by simp
    then show ?thesis by blast
  next
    case None
    with Cons.prems have pc: "p c" and l: "lazy p k cs = Some r" by (auto split: if_splits)
    with Cons.IH obtain w t where "cs = w @ t" "list_all p w" "k t = Some r" by blast
    then have "c # cs = (c # w) @ t \<and> list_all p (c # w) \<and> k t = Some r" using pc by simp
    then show ?thesis by blast
  qed
qed

lemma opt_SomeD: "opt m k s = Some r \<Longrightarrow> m k s = Some r \<or> k s = Some r"
  by (auto simp: opt_def split: option.splits)

lemma alt_SomeD: "alt m1 m2 k s = Some r \<Longrightarrow> m1 k s = Some r \<or> m2 k s = Some r"
  by (auto simp: alt_def split: option.splits)

lemma rep_SomeD:
  assumes m: "\<And>k' s' r'. m k' s' = Some r' \<Longrightarrow> \<exists>w t. s' = w @ t \<and> k' t = Some r'"
  shows "rep m k s = Some r \<Longrightarrow> \<exists>w t. s = w @ t \<and> k t = Some r"
proof (induction "length s" arbitrary: s rule: less_induct)
  case less
  let ?k' = "\<lambda>s'. if length s' < length s then rep m k s' else None"
  show ?case
  proof (cases "m ?k' s")
    case None
    with less.prems have "k s = Some r" by (subst (asm) rep.simps) simp
    then have "s = [] @ s \<and> k s = Some r" by simp
    then show ?thesis by blast
  next
    case (Some a)
    with less.prems have "m ?k' s = Some r" by (subst (asm) rep.simps) simp
    from m [OF this] obtain w t where s: "s = w @ t" and k': "?k' t = Some r" by blast
    then have lt: "length t < length s" and "rep m k t = Some r" by (auto split: if_splits)
    from less.hyps [OF lt this(2)] obtain w' t' where "t = w' @ t'" "k t' = Some r" by blast
    then have "s = (w @ w') @ t' \<and> k t' = Some r" using s by simp
    then show ?thesis by blast
  qed
qed

lemma line_annotation_SomeD:
  "line_annotation k s = Some r \<Longrightarrow> \<exists>w t. s = w @ t \<and> k t = Some r"
  unfolding line_annotation_def
  apply (drule star_SomeD, clarify)
  apply (drule lit_SomeD, clarify)
  apply (drule plus_SomeD, clarify)
  apply (drule plus_SomeD, clarify)
  apply (drule star_SomeD, clarify)
  apply (drule lit_SomeD, clarify)
  apply (metis append.assoc)
  done


lemma rstrip_spaces: "list_all is_space w \<Longrightarrow> rstrip (x @ w) = rstrip x"
  by (induction w rule: rev_induct) (auto simp: rstrip_def simp flip: append_assoc)

lemma rstrip_nonspace: "\<not> is_space c \<Longrightarrow> rstrip (x @ [c]) = x @ [c]"
  by (simp add: rstrip_def)

lemma is_space_nl [simp]: "is_space nl"
  by (simp add: is_space_def nl_def)

lemma true_at_end_only:
  assumes "pattern_true_at_end b u = Some r" and "u = x @ [c]" and "\<not> is_space c"
  shows "u = ''0x1'' \<and> r = ((), [])"
proof -
  from assms(1) obtain t where u: "u = ''0x1'' @ t"
    and st: "star is_space (eol_plain (\<lambda>r. Some ((), r))) t = Some r"
    unfolding pattern_true_at_end_def by (blast dest: lit_SomeD)
  from star_SomeD [OF st] obtain w t' where t: "t = w @ t'" and w: "list_all is_space w"
    and e: "eol_plain (\<lambda>r. Some ((), r)) t' = Some r" by blast
  from e have t': "t' = [] \<or> t' = [nl]" and r: "r = ((), t')"
    by (auto simp: eol_plain_def split: if_splits)
  have sp: "list_all is_space t" using t w t' by auto
  have "t = []"
  proof (rule ccontr)
    assume "t \<noteq> []"
    then have "last u = last t" using u by simp
    moreover have "is_space (last t)" using sp \<open>t \<noteq> []\<close> by (simp add: list_all_iff)
    ultimately show False using assms(2,3) by simp
  qed
  then show ?thesis using u t r by simp
qed

lemma subn_from_Nil:
  "m bol [] = None \<Longrightarrow> subn_from m repl bol [] = ([], 0)"
  by (subst subn_from.simps) (simp add: consuming_def)

lemma subn_from_skip:
  "m bol (c # cs) = None \<Longrightarrow>
   subn_from m repl bol (c # cs) = (c # fst (subn_from m repl (c = nl) cs), snd (subn_from m repl (c = nl) cs))"
  by (subst subn_from.simps) (simp add: consuming_def split: prod.splits)

lemma subn_from_match:
  "m bol s = Some (g, r) \<Longrightarrow> length r < length s \<Longrightarrow>
   subn_from m repl bol s =
     (repl g @ fst (subn_from m repl (last (between s r) = nl) r),
      Suc (snd (subn_from m repl (last (between s r) = nl) r)))"
  by (subst subn_from.simps) (simp add: consuming_def split: prod.splits)

lemma true_at_end_Nil [simp]: "pattern_true_at_end b [] = None"
  by (simp add: pattern_true_at_end_def lit_def)

lemma subn_true_at_end:
  "subn_from pattern_true_at_end (\<lambda>_. ''0x0'') b (pre @ ''0x1'') = (pre @ ''0x0'', 1)"
proof (induction pre arbitrary: b)
  case Nil
  have "pattern_true_at_end b ''0x1'' = Some ((), [])"
    by (simp add: pattern_true_at_end_def lit_def eol_plain_def)
  then show ?case
    by (simp add: subn_from_match subn_from_Nil)
next
  case (Cons c pre)
  have "pattern_true_at_end b (c # pre @ ''0x1'') = None"
  proof (rule ccontr)
    assume "pattern_true_at_end b (c # pre @ ''0x1'') \<noteq> None"
    then obtain r where "pattern_true_at_end b (c # pre @ ''0x1'') = Some r" by blast
    from true_at_end_only [OF this, of "c # pre @ ''0x''" "CHR ''1''"]
    show False by (simp add: is_space_def)
  qed
  then show ?case by (simp add: subn_from_skip Cons.IH)
qed

lemma sub_true_at_end: "sub pattern_true_at_end (\<lambda>_. ''0x0'') (pre @ ''0x1'') = pre @ ''0x0''"
  by (simp add: sub_def subn_def subn_true_at_end)


lemma const_load_SomeD:
  assumes "const_load k s = Some r"
  shows "\<exists>opcode register gap ws digits s1.
           s = (opcode @ register @ '','' @ gap @ ''0x1'' @ ws) @ s1
         \<and> gap \<noteq> [] \<and> list_all is_space gap \<and> ws \<noteq> [] \<and> list_all is_space ws
         \<and> digits \<noteq> [] \<and> list_all is_digit digits
         \<and> (register = CHR ''p'' # digits \<or> register = CHR ''v'' # digits)
         \<and> k register s1 = Some r"
proof -
  let ?load = "\<lambda>sa sb. lit '','' (plus is_space (lit ''0x1'' (star is_space (lit [nl]
               (k (between sa sb))))))"
  let ?reg = "\<lambda>sa. alt (lit ''p'') (lit ''v'') (plus is_digit (\<lambda>sb. ?load sa sb sb)) sa"
  from assms obtain w0 t0 where s0: "s = w0 @ t0"
    and a0: "alt (lit ''const/4'') (alt (lit ''const/16'') (lit ''const''))
               (plus is_space ?reg) t0 = Some r"
    unfolding const_load_def by (blast dest: star_SomeD)
  from a0 obtain op t1 where t0: "t0 = op @ t1" and a1: "plus is_space ?reg t1 = Some r"
    by (blast dest: alt_SomeD lit_SomeD)
  from plus_SomeD [OF a1] obtain w1 sa where t1: "t1 = w1 @ sa" and a2: "?reg sa = Some r"
    by blast
  from a2 obtain pv t2 where sa: "sa = pv @ t2" and pv: "pv = ''p'' \<or> pv = ''v''"
    and a3: "plus is_digit (\<lambda>sb. ?load sa sb sb) t2 = Some r"
    by (blast dest: alt_SomeD lit_SomeD)
  from plus_SomeD [OF a3] obtain digits sb where t2: "t2 = digits @ sb"
    and d: "digits \<noteq> []" "list_all is_digit digits" and a4: "?load sa sb sb = Some r"
    by blast
  have reg: "between sa sb = pv @ digits"
    using sa t2 by (metis append.assoc between_append)
  from lit_SomeD [OF a4] obtain t3 where sb: "sb = '','' @ t3"
    and a5: "plus is_space (lit ''0x1'' (star is_space (lit [nl] (k (between sa sb))))) t3
             = Some r" by blast
  from plus_SomeD [OF a5] obtain gap t4 where t3: "t3 = gap @ t4"
    and gap: "gap \<noteq> []" "list_all is_space gap"
    and a6: "lit ''0x1'' (star is_space (lit [nl] (k (between sa sb)))) t4 = Some r" by blast
  from lit_SomeD [OF a6] obtain t5 where t4: "t4 = ''0x1'' @ t5"
    and a7: "star is_space (lit [nl] (k (between sa sb))) t5 = Some r" by blast
  from star_SomeD [OF a7] obtain w5 t6 where t5: "t5 = w5 @ t6" and w5: "list_all is_space w5"
    and a8: "lit [nl] (k (between sa sb)) t6 = Some r" by blast
  from lit_SomeD [OF a8] obtain s1 where t6: "t6 = [nl] @ s1"
    and a9: "k (between sa sb) s1 = Some r" by blast
  have "s = ((w0 @ op @ w1) @ (pv @ digits) @ '','' @ gap @ ''0x1'' @ (w5 @ [nl])) @ s1"
    using s0 t0 t1 sa t2 sb t3 t4 t5 t6 by simp
  moreover have "w5 @ [nl] \<noteq> []" "list_all is_space (w5 @ [nl])" using w5 by simp_all
  moreover have "pv @ digits = CHR ''p'' # digits \<or> pv @ digits = CHR ''v'' # digits"
    using pv by auto
  moreover have "k (pv @ digits) s1 = Some r" using a9 reg by simp
  ultimately show ?thesis using gap d by blast
qed

lemma invocation_SomeD:
  assumes "invocation register k s = Some r"
  shows "\<exists>call s4. s = (call @ register
                         @ ''}, Landroid/location/Location;->setIsFromMockProvider(Z)V'') @ s4
                   \<and> k s4 = Some r"
proof -
  from assms obtain w0 t0 where s0: "s = w0 @ t0"
    and a0: "lit ''invoke-virtual'' (plus is_space (lit ''{''
       (plus not_comma (lit '','' (plus is_space (lit register
         (lit ''}, Landroid/location/Location;->setIsFromMockProvider(Z)V'' k))))))) t0 = Some r"
    unfolding invocation_def by (blast dest: star_SomeD)
  from lit_SomeD [OF a0] obtain t1 where t1: "t0 = ''invoke-virtual'' @ t1"
    and a1: "plus is_space (lit ''{''
       (plus not_comma (lit '','' (plus is_space (lit register
         (lit ''}, Landroid/location/Location;->setIsFromMockProvider(Z)V'' k)))))) t1 = Some r"
    by blast
  from plus_SomeD [OF a1] obtain w2 t2 where t2: "t1 = w2 @ t2"
    and a2: "lit ''{''
       (plus not_comma (lit '','' (plus is_space (lit register
         (lit ''}, Landroid/location/Location;->setIsFromMockProvider(Z)V'' k))))) t2 = Some r"
    by blast
  from lit_SomeD [OF a2] obtain t3 where t3: "t2 = ''{'' @ t3"
    and a3: "plus not_comma (lit '','' (plus is_space (lit register
         (lit ''}, Landroid/location/Location;->setIsFromMockProvider(Z)V'' k)))) t3 = Some r"
    by blast
  from plus_SomeD [OF a3] obtain w4 t4 where t4: "t3 = w4 @ t4"
    and a4: "lit '','' (plus is_space (lit register
         (lit ''}, Landroid/location/Location;->setIsFromMockProvider(Z)V'' k))) t4 = Some r"
    by blast
  from lit_SomeD [OF a4] obtain t5 where t5: "t4 = '','' @ t5"
    and a5: "plus is_space (lit register
         (lit ''}, Landroid/location/Location;->setIsFromMockProvider(Z)V'' k)) t5 = Some r"
    by blast
  from plus_SomeD [OF a5] obtain w6 t6 where t6: "t5 = w6 @ t6"
    and a6: "lit register
         (lit ''}, Landroid/location/Location;->setIsFromMockProvider(Z)V'' k) t6 = Some r"
    by blast
  from lit_SomeD [OF a6] obtain t7 where t7: "t6 = register @ t7"
    and a7: "lit ''}, Landroid/location/Location;->setIsFromMockProvider(Z)V'' k t7 = Some r"
    by blast
  from lit_SomeD [OF a7] obtain s4
    where s4: "t7 = ''}, Landroid/location/Location;->setIsFromMockProvider(Z)V'' @ s4"
    and a8: "k s4 = Some r" by blast
  have "s = ((w0 @ ''invoke-virtual'' @ w2 @ ''{'' @ w4 @ '','' @ w6) @ register
              @ ''}, Landroid/location/Location;->setIsFromMockProvider(Z)V'') @ s4"
    using s0 t1 t2 t3 t4 t5 t6 t7 s4 by simp
  then show ?thesis using a8 by blast
qed

lemma pattern_mock_SomeD:
  assumes "pattern_mock bol s = Some ((const_line_full, register, lines, invoke), rest)"
  shows "\<exists>opcode gap ws digits call.
           s = const_line_full @ lines @ invoke @ rest
         \<and> const_line_full = opcode @ register @ '','' @ gap @ ''0x1'' @ ws
         \<and> gap \<noteq> [] \<and> list_all is_space gap \<and> ws \<noteq> [] \<and> list_all is_space ws
         \<and> digits \<noteq> [] \<and> list_all is_digit digits
         \<and> (register = CHR ''p'' # digits \<or> register = CHR ''v'' # digits)
         \<and> invoke = call @ register
                      @ ''}, Landroid/location/Location;->setIsFromMockProvider(Z)V''"
proof -
  let ?res = "Some ((const_line_full, register, lines, invoke), rest)"
  from assms [unfolded pattern_mock_def, THEN const_load_SomeD]
  obtain opcode reg gap ws digits s1 where
    s: "s = (opcode @ reg @ '','' @ gap @ ''0x1'' @ ws) @ s1"
    and sp: "gap \<noteq> []" "list_all is_space gap" "ws \<noteq> []" "list_all is_space ws"
    and d: "digits \<noteq> []" "list_all is_digit digits"
    and r: "reg = CHR ''p'' # digits \<or> reg = CHR ''v'' # digits"
    and a1: "rep line_annotation
          (\<lambda>s3. invocation reg
             (\<lambda>s4. Some ((between s s1, reg, between s1 s3, between s3 s4), s4)) s3) s1 = ?res"
    by blast
  from rep_SomeD [OF line_annotation_SomeD a1] obtain ls s3 where s1: "s1 = ls @ s3"
    and a2: "invocation reg
             (\<lambda>s4. Some ((between s s1, reg, between s1 s3, between s3 s4), s4)) s3 = ?res"
    by blast
  from invocation_SomeD [OF a2] obtain call s4 where
    s3: "s3 = (call @ reg @ ''}, Landroid/location/Location;->setIsFromMockProvider(Z)V'') @ s4"
    and a3: "Some ((between s s1, reg, between s1 s3, between s3 s4), s4) = ?res" by blast
  from a3 have g1: "const_line_full = between s s1" and g2: "register = reg"
    and g3: "lines = between s1 s3" and g4: "invoke = between s3 s4" and rest: "rest = s4"
    by auto
  have g1': "const_line_full = opcode @ reg @ '','' @ gap @ ''0x1'' @ ws"
    unfolding g1 by (subst s) (rule between_append)
  have g3': "lines = ls" unfolding g3 by (subst s1) (rule between_append)
  have g4': "invoke = call @ reg @ ''}, Landroid/location/Location;->setIsFromMockProvider(Z)V''"
    unfolding g4 by (subst s3) (rule between_append)
  have "s = const_line_full @ lines @ invoke @ rest"
    using s s1 s3 g1' g3' g4' rest by simp
  then show ?thesis using g1' g2 g4' sp d r by blast
qed

lemma replacer_flips:
  assumes "list_all is_space ws"
  shows "replacer_mock_location (load @ ''0x1'' @ ws, register, lines, invoke) =
           load @ ''0x0'' @ [nl] @ lines @ invoke
             @ (if startswith register ''p'' then ''\<newline>    const/4 '' @ register @ '', 0x1'' else [])"
proof -
  have "rstrip (load @ ''0x1'' @ ws) = rstrip ((load @ ''0x'') @ [CHR ''1''])"
    using rstrip_spaces [OF assms, of "load @ ''0x1''"] by simp
  also have "\<dots> = load @ ''0x1''"
    by (subst rstrip_nonspace) (simp_all add: is_space_def)
  finally show ?thesis
    by (simp add: replacer_mock_location_def sub_true_at_end)
qed

text \<open>The scan before and at the leftmost match.\<close>

lemma pattern_mock_bol: "pattern_mock b s = pattern_mock True s"
  by (simp add: pattern_mock_def)

lemma subn_from_bol:
  assumes "\<And>b s. m b s = m True s"
  shows "subn_from m repl b s = subn_from m repl True s"
  using subn_from.simps [of m repl b s] subn_from.simps [of m repl True s] assms [of b s]
  by simp

lemma subn_from_unmatched_prefix:
  assumes "\<forall>n<length pre. \<forall>b. m b (drop n pre @ s) = None"
  shows "subn_from m repl bol (pre @ s) =
           (pre @ fst (subn_from m repl (if pre = [] then bol else last pre = nl) s),
            snd (subn_from m repl (if pre = [] then bol else last pre = nl) s))"
  using assms
proof (induction pre arbitrary: bol)
  case Nil
  then show ?case by simp
next
  case (Cons c pre)
  from Cons.prems have "m bol (drop 0 (c # pre) @ s) = None" by blast
  then have n: "m bol (c # pre @ s) = None" by simp
  have "\<forall>n<length pre. \<forall>b. m b (drop n pre @ s) = None"
  proof (intro allI impI)
    fix n b assume "n < length pre"
    then have "Suc n < length (c # pre)" by simp
    with Cons.prems have "m b (drop (Suc n) (c # pre) @ s) = None" by blast
    then show "m b (drop n pre @ s) = None" by simp
  qed
  from Cons.IH [OF this, of "c = nl"]
    subn_from_skip [where m = m and bol = bol and c = c and cs = "pre @ s" and repl = repl, OF n]
  show ?case by simp
qed

lemma list_all_upt: "list_all P [0..<k] \<Longrightarrow> \<forall>n<k. P n"
  by (simp add: list_all_iff)

text \<open>
  Claim C4.  Let the mock-location pattern match at a place of the text before
  which it matches nowhere.  The match is the constant load, the annotations and
  the invocation; the constant load ends with \<^verbatim>\<open>0x1\<close> and white space, the register
  is \<^verbatim>\<open>p\<close> or \<^verbatim>\<open>v\<close> followed by digits, and the invocation passes that register.
  The rewrite of the text keeps what stands before the match and puts in the
  place of the match the constant load with \<^verbatim>\<open>0x1\<close> turned into \<^verbatim>\<open>0x0\<close>, the
  annotations and the invocation unchanged, followed by an instruction that
  loads \<^verbatim>\<open>0x1\<close> into the register again exactly when the register's name starts
  with \<^verbatim>\<open>p\<close>; for a \<^verbatim>\<open>v\<close> register nothing follows the invocation.  It goes on in
  the same way with the text after the match, and it counts the match.
\<close>

theorem mock_location_replacement:
  assumes "\<forall>n<length pre. pattern_mock True (drop n pre @ s) = None"
    and "pattern_mock True s = Some ((const_line_full, register, lines, invoke), rest)"
  shows "\<exists>load ws digits call.
           s = const_line_full @ lines @ invoke @ rest
         \<and> const_line_full = load @ ''0x1'' @ ws \<and> ws \<noteq> [] \<and> list_all is_space ws
         \<and> digits \<noteq> [] \<and> list_all is_digit digits
         \<and> (register = CHR ''p'' # digits \<or> register = CHR ''v'' # digits)
         \<and> invoke = call @ register
                      @ ''}, Landroid/location/Location;->setIsFromMockProvider(Z)V''
         \<and> replacer_mock_location (const_line_full, register, lines, invoke) =
             load @ ''0x0'' @ [nl] @ lines @ invoke
               @ (if hd register = CHR ''p''
                  then ''\<newline>    const/4 '' @ register @ '', 0x1'' else [])
         \<and> mock_location_rewrite (pre @ s) =
             (pre @ load @ ''0x0'' @ [nl] @ lines @ invoke
                @ (if hd register = CHR ''p''
                   then ''\<newline>    const/4 '' @ register @ '', 0x1'' else [])
                @ fst (mock_location_rewrite rest),
              Suc (snd (mock_location_rewrite rest)))"
proof -
  from pattern_mock_SomeD [OF assms(2)] obtain opcode gap ws digits call where
    s: "s = const_line_full @ lines @ invoke @ rest"
    and g1: "const_line_full = opcode @ register @ '','' @ gap @ ''0x1'' @ ws"
    and ws: "ws \<noteq> []" "list_all is_space ws"
    and d: "digits \<noteq> []" "list_all is_digit digits"
    and r: "register = CHR ''p'' # digits \<or> register = CHR ''v'' # digits"
    and g4: "invoke = call @ register
                      @ ''}, Landroid/location/Location;->setIsFromMockProvider(Z)V''"
    by blast
  let ?load = "opcode @ register @ '','' @ gap"
  let ?restore = "if hd register = CHR ''p''
                  then ''\<newline>    const/4 '' @ register @ '', 0x1'' else []"
  let ?g = "(const_line_full, register, lines, invoke)"
  have g1': "const_line_full = ?load @ ''0x1'' @ ws" using g1 by simp
  have sw: "startswith register ''p'' = (hd register = CHR ''p'')"
    using r by (auto simp: startswith_def)
  have repl: "replacer_mock_location ?g = ?load @ ''0x0'' @ [nl] @ lines @ invoke @ ?restore"
    unfolding g1' using replacer_flips [OF ws(2), of ?load register lines invoke] sw
    by simp
  have lt: "length rest < length s" using s g1 by simp
  have bol: "subn_from pattern_mock replacer_mock_location b t = mock_location_rewrite t" for b t
    unfolding mock_location_rewrite_def subn_def
    by (rule subn_from_bol) (rule pattern_mock_bol)
  have none: "\<forall>n<length pre. \<forall>b. pattern_mock b (drop n pre @ s) = None"
    using assms(1) by (simp add: pattern_mock_def)
  have "mock_location_rewrite (pre @ s) =
          (pre @ fst (mock_location_rewrite s), snd (mock_location_rewrite s))"
    using subn_from_unmatched_prefix [OF none, of replacer_mock_location True]
    by (simp add: bol)
  moreover have "mock_location_rewrite s =
          (replacer_mock_location ?g @ fst (mock_location_rewrite rest),
           Suc (snd (mock_location_rewrite rest)))"
    using subn_from_match [where m = pattern_mock and bol = True and s = s
        and repl = replacer_mock_location, OF assms(2) lt]
    by (simp add: bol)
  ultimately have "mock_location_rewrite (pre @ s) =
          (pre @ ?load @ ''0x0'' @ [nl] @ lines @ invoke @ ?restore
             @ fst (mock_location_rewrite rest),
           Suc (snd (mock_location_rewrite rest)))"
    using repl by simp
  with s g1' ws d r g4 repl show ?thesis by blast
qed

text \<open>The theorem at the fixture, placed after a method header.\<close>

theorem mock_location_replacement_witness:
  \<open>pattern_mock True (nl # mock_fixture) =
     Some ((''\<newline>    const/4 p1, 0x1\<newline>\<newline>'', ''p1'', ''    .line 120\<newline>'',
        ''    invoke-virtual {v0, p1}, Landroid/location/Location;->setIsFromMockProvider(Z)V''),
           ''\<newline>\<newline>    array-length v1, p1\<newline>'')
   \<and> (\<exists>load ws digits call.
         nl # mock_fixture = ''\<newline>    const/4 p1, 0x1\<newline>\<newline>'' @ ''    .line 120\<newline>''
           @ ''    invoke-virtual {v0, p1}, Landroid/location/Location;->setIsFromMockProvider(Z)V''
           @ ''\<newline>\<newline>    array-length v1, p1\<newline>''
       \<and> ''\<newline>    const/4 p1, 0x1\<newline>\<newline>'' = load @ ''0x1'' @ ws \<and> ws \<noteq> [] \<and> list_all is_space ws
       \<and> digits \<noteq> [] \<and> list_all is_digit digits
       \<and> (''p1'' = CHR ''p'' # digits \<or> ''p1'' = CHR ''v'' # digits)
       \<and> ''    invoke-virtual {v0, p1}, Landroid/location/Location;->setIsFromMockProvider(Z)V''
           = call @ ''p1'' @ ''}, Landroid/location/Location;->setIsFromMockProvider(Z)V''
       \<and> replacer_mock_location
           (''\<newline>    const/4 p1, 0x1\<newline>\<newline>'', ''p1'', ''    .line 120\<newline>'',
        ''    invoke-virtual {v0, p1}, Landroid/location/Location;->setIsFromMockProvider(Z)V'') =
           load @ ''0x0'' @ [nl] @ ''    .line 120\<newline>''
             @ ''    invoke-virtual {v0, p1}, Landroid/location/Location;->setIsFromMockProvider(Z)V''
             @ (if hd ''p1'' = CHR ''p'' then ''\<newline>    const/4 '' @ ''p1'' @ '', 0x1'' else [])
       \<and> mock_location_rewrite (''.method public set(Z)V'' @ nl # mock_fixture) =
           (''.method public set(Z)V'' @ load @ ''0x0'' @ [nl] @ ''    .line 120\<newline>''
             @ ''    invoke-virtual {v0, p1}, Landroid/location/Location;->setIsFromMockProvider(Z)V''
             @ (if hd ''p1'' = CHR ''p'' then ''\<newline>    const/4 '' @ ''p1'' @ '', 0x1'' else [])
             @ fst (mock_location_rewrite ''\<newline>\<newline>    array-length v1, p1\<newline>''),
            Suc (snd (mock_location_rewrite ''\<newline>\<newline>    array-length v1, p1\<newline>''))))
   \<and> mock_location_rewrite (''.method public set(Z)V'' @ nl # mock_fixture) =
       (''.method public set(Z)V\<newline>    const/4 p1, 0x0\<newline>    .line 120\<newline>    invoke-virtual {v0, p1}, Landroid/location/Location;->setIsFromMockProvider(Z)V\<newline>    const/4 p1, 0x1\<newline>\<newline>    array-length v1, p1\<newline>'', 1)\<close>
proof -
  have m: \<open>pattern_mock True (nl # mock_fixture) =
     Some ((''\<newline>    const/4 p1, 0x1\<newline>\<newline>'', ''p1'', ''    .line 120\<newline>'',
        ''    invoke-virtual {v0, p1}, Landroid/location/Location;->setIsFromMockProvider(Z)V''),
           ''\<newline>\<newline>    array-length v1, p1\<newline>'')\<close>
    by code_simp
  have \<open>list_all (\<lambda>n. pattern_mock True (drop n ''.method public set(Z)V'' @ nl # mock_fixture) = None)
          [0..<length ''.method public set(Z)V'']\<close>
    by code_simp
  then have n: \<open>\<forall>n<length ''.method public set(Z)V''.
                 pattern_mock True (drop n ''.method public set(Z)V'' @ nl # mock_fixture) = None\<close>
    by (rule list_all_upt)
  have c: \<open>mock_location_rewrite (''.method public set(Z)V'' @ nl # mock_fixture) =
       (''.method public set(Z)V\<newline>    const/4 p1, 0x0\<newline>    .line 120\<newline>    invoke-virtual {v0, p1}, Landroid/location/Location;->setIsFromMockProvider(Z)V\<newline>    const/4 p1, 0x1\<newline>\<newline>    array-length v1, p1\<newline>'', 1)\<close>
    by code_simp
  from mock_location_replacement [OF n m] m c show ?thesis by (intro conjI)
qed

text \<open>A text in which the pattern matches nowhere is left as it is.\<close>

lemma mock_location_rewrite_unmatched:
  assumes "\<forall>n<length t. pattern_mock True (drop n t) = None"
  shows "mock_location_rewrite t = (t, 0)"
proof -
  have "\<forall>n<length t. \<forall>b. pattern_mock b (drop n t @ []) = None"
    using assms by (simp add: pattern_mock_def)
  moreover have "subn_from pattern_mock replacer_mock_location b [] = ([], 0)" for b
    by (subst subn_from.simps) (simp add: consuming_def split: option.splits)
  ultimately show ?thesis
    using subn_from_unmatched_prefix [of t pattern_mock "[]" replacer_mock_location True]
    by (simp add: mock_location_rewrite_def subn_def)
qed

text \<open>A local register: the constant is flipped and nothing follows the
  invocation.\<close>

lemma mock_location_rewrite_local:
  \<open>mock_location_rewrite mock_local_fixture =
     (''    const/16 v2, 0x0\<newline>    invoke-virtual {v0, v2}, Landroid/location/Location;->setIsFromMockProvider(Z)V\<newline>    return-void\<newline>'', 1)\<close>
  by code_simp

section \<open>Rule A and the check-only methods\<close>

text \<open>
  Claim C1 says that no check-only method is ever rewritten, by the boolean or by
  the integer replacement.  On a class whose only method is
  \<^verbatim>\<open>checkOpNoThrow(ILjava/lang/String;)I\<close> the integer replacement matches once and
  replaces the body by \<^verbatim>\<open>return 0\<close>.
\<close>

theorem int_rule_rewrites_check_variant:
  \<open>app_ops_rewrite check_int_fixture =
     (''.method public checkOpNoThrow(ILjava/lang/String;)I\<newline>    .registers 4\<newline>\<newline>    .locals 1\<newline>    const/4 v0, 0x0\<newline>    return v0\<newline>\<newline>.end method\<newline>'', 0, 1)\<close>
  by code_simp

text \<open>The boolean replacement starts only at a \<^verbatim>\<open>noteOp\<close> header, but its lazy
  \<^verbatim>\<open>.*?\<close> runs over the end of a method that does not return a boolean: here it
  keeps the body of \<^verbatim>\<open>noteOp(I)V\<close> and replaces the body of the check-only method
  that follows.\<close>

lemma bool_rule_crosses_method_boundary:
  \<open>app_ops_rewrite note_void_then_check_fixture =
     (''.method public noteOp(I)V\<newline>    .registers 2\<newline>\<newline>    return-void\<newline>.end method\<newline>\<newline>.method public checkOpNoThrow(I)Z\<newline>    .registers 3\<newline>\<newline>    const/4 v0, 0x1\<newline>    return v0\<newline>\<newline>.end method\<newline>'', 1, 0)\<close>
  by code_simp

section \<open>The managed block\<close>

lemma remove_existing_lines_lines_to_add:
  "snd (snd (snd (remove_existing_lines items (t, a, u, ls)))) =
     ls @ map (\<lambda>(edify_path, is_dir, mode). build_edify_line edify_path is_dir mode) items"
  by (induction items arbitrary: t a u ls) (auto split: prod.splits)

text \<open>
  Claim C3 as stated fails: the script below contains the first mount directive,
  the entry list is not empty, and the managed block of the output follows the
  last line of the script, not the mount directive.
\<close>

theorem block_not_after_mount_counterexample:
  \<open>contains (hd mount_points) mounting_script \<and> app_items \<noteq> []
   \<and> ensure_edify_stat_lines mounting_script app_items =
       (''mount("ext4", "EMMC", "/dev/block/bootdevice/by-name/system", "/system");\<newline>package_extract_dir("system", "/system");\<newline>\<newline># === Tool: auto-permission ===\<newline>set_metadata_recursive("/system/app", "uid", 0, "gid", 0, "mode", 0755);\<newline># === End Tool Block ==='', 1, 0)
   \<and> \<not> contains (hd mount_points @ ''\<newline>\<newline># === Tool: auto-permission ==='')
         (fst (ensure_edify_stat_lines mounting_script app_items))\<close>
  by code_simp

text \<open>
  Claim C3, amended.  For every script text and every entry list, the output of
  the merge ends with the managed block built from the entries, in their order:
  the block is appended at the end of the text whether or not the script contains
  a mount directive.
\<close>

theorem block_appended_at_end:
  "\<exists>body. fst (ensure_edify_stat_lines script_text items) =
            body @ managed_block
                     (map (\<lambda>(edify_path, is_dir, mode). build_edify_line edify_path is_dir mode)
                        items)"
proof -
  obtain t a u ls where r: "remove_existing_lines items (script_text, 0, 0, []) = (t, a, u, ls)"
    by (cases "remove_existing_lines items (script_text, 0, 0, [])") auto
  have "ls = map (\<lambda>(edify_path, is_dir, mode). build_edify_line edify_path is_dir mode) items"
    using remove_existing_lines_lines_to_add [of items script_text 0 0 "[]"] r by simp
  then show ?thesis
    by (simp add: ensure_edify_stat_lines_def ensure_edify_locals_def r Let_def)
qed

text \<open>
  Claim C2 says that a second merge with the same entries changes white space
  only and keeps the live directives.  The script below holds a start marker
  without an end marker, followed by a directive for another path.  The first
  merge keeps both and appends the block; the second merge removes everything
  from the stray start marker to the end marker of the appended block, and the
  directive for \<^verbatim>\<open>/system/bin/sh\<close> is gone.
\<close>

theorem second_merge_drops_text:
  \<open>fst (ensure_edify_stat_lines unterminated_marker_script app_items) =
     ''ui_print("x");\<newline># === Tool: auto-permission ===\<newline>set_metadata("/system/bin/sh", "uid", 0, "gid", 2000, "mode", 0755);\<newline>\<newline># === Tool: auto-permission ===\<newline>set_metadata_recursive("/system/app", "uid", 0, "gid", 0, "mode", 0755);\<newline># === End Tool Block ===''
   \<and> fst (ensure_edify_stat_lines
            ''ui_print("x");\<newline># === Tool: auto-permission ===\<newline>set_metadata("/system/bin/sh", "uid", 0, "gid", 2000, "mode", 0755);\<newline>\<newline># === Tool: auto-permission ===\<newline>set_metadata_recursive("/system/app", "uid", 0, "gid", 0, "mode", 0755);\<newline># === End Tool Block ==='' app_items) =
     ''ui_print("x");\<newline>\<newline># === Tool: auto-permission ===\<newline>set_metadata_recursive("/system/app", "uid", 0, "gid", 0, "mode", 0755);\<newline># === End Tool Block ===''\<close>
  by code_simp

section \<open>Two merges in a row\<close>

text \<open>
  Claim C7 as stated fails.  With an entry whose path contains the text of the
  end marker, the second merge removes the first block only up to that text, and
  the directive for \<^verbatim>\<open>/system/app\<close> of the first list is still in the output,
  outside the new block.  With a script in which markers are nested, the output
  of the second merge holds two managed blocks.
\<close>

theorem last_write_wins_counterexample:
  \<open>marker_named_items \<noteq> bin_items
   \<and> fst (ensure_edify_stat_lines (fst (ensure_edify_stat_lines [] marker_named_items)) bin_items) =
       ''", "uid", 0, "gid", 0, "mode", 0755);\<newline>set_metadata_recursive("/system/app", "uid", 0, "gid", 0, "mode", 0755);\<newline># === End Tool Block ===\<newline>\<newline># === Tool: auto-permission ===\<newline>set_metadata_recursive("/system/bin", "uid", 0, "gid", 0, "mode", 0755);\<newline># === End Tool Block ===''
   \<and> app_items \<noteq> bin_items
   \<and> fst (ensure_edify_stat_lines (fst (ensure_edify_stat_lines nested_marker_script app_items))
          bin_items) =
       ''# === Tool: auto-permission ===z# === End Tool Block ===\<newline>\<newline># === Tool: auto-permission ===\<newline>set_metadata_recursive("/system/bin", "uid", 0, "gid", 0, "mode", 0755);\<newline># === End Tool Block ===''\<close>
  by code_simp

text \<open>The text without white space, and one step of a scan.\<close>

lemma content_append [simp]: "content (xs @ ys) = content xs @ content ys"
  by (simp add: content_def)

lemma content_Nil [simp]: "content [] = []"
  by (simp add: content_def)

lemma content_nl [simp]: "content (nl # xs) = content xs"
  by (simp add: content_def)

lemma consuming_shorter: "consuming s x = Some (g, r) \<Longrightarrow> length r < length s"
  by (auto simp: consuming_def split: option.splits if_splits)

lemma consuming_Nil [simp]: "consuming [] x = None"
  by (auto simp: consuming_def split: option.splits)

lemma consuming_None [simp]: "consuming s None = None"
  by (simp add: consuming_def)

lemma consuming_SomeD: "consuming s x = Some (g, r) \<Longrightarrow> x = Some (g, r)"
  by (auto simp: consuming_def split: option.splits if_splits)

lemma subn_from_empty [simp]: "subn_from m repl bol [] = ([], 0)"
  by (subst subn_from.simps) simp

lemma subn_from_copy:
  "consuming (c # cs) (m bol (c # cs)) = None \<Longrightarrow>
   subn_from m repl bol (c # cs) =
     (c # fst (subn_from m repl (c = nl) cs), snd (subn_from m repl (c = nl) cs))"
  by (subst subn_from.simps) (simp split: prod.splits)

lemma subn_from_replace:
  "consuming s (m bol s) = Some (g, r) \<Longrightarrow>
   subn_from m repl bol s =
     (repl g @ fst (subn_from m repl (last (between s r) = nl) r),
      Suc (snd (subn_from m repl (last (between s r) = nl) r)))"
  by (subst subn_from.simps) (simp split: prod.splits)

text \<open>Occurrences of a text.\<close>

lemma contains_iff: "contains p t \<longleftrightarrow> (\<exists>a b. t = a @ p @ b)"
proof (induction t)
  case Nil
  then show ?case by auto
next
  case (Cons c t)
  show ?case
  proof
    assume "contains p (c # t)"
    then have "prefix p (c # t) \<or> contains p t" by simp
    then show "\<exists>a b. c # t = a @ p @ b"
    proof
      assume "prefix p (c # t)"
      then obtain b where "c # t = [] @ p @ b" by (auto simp: prefix_def)
      then show ?thesis by blast
    next
      assume "contains p t"
      with Cons.IH obtain a b where "t = a @ p @ b" by blast
      then have "c # t = (c # a) @ p @ b" by simp
      then show ?thesis by blast
    qed
  next
    assume "\<exists>a b. c # t = a @ p @ b"
    then obtain a b where e: "c # t = a @ p @ b" by blast
    show "contains p (c # t)"
    proof (cases a)
      case Nil
      with e have "prefix p (c # t)" by (simp add: prefix_def)
      then show ?thesis by simp
    next
      case (Cons c' a')
      with e have "t = a' @ p @ b" by simp
      with Cons.IH have "contains p t" by blast
      then show ?thesis by simp
    qed
  qed
qed

lemma contains_append1: "contains p a \<Longrightarrow> contains p (a @ b)"
proof -
  assume "contains p a"
  then obtain x y where "a = x @ p @ y" unfolding contains_iff by blast
  then have "a @ b = x @ p @ (y @ b)" by simp
  then show ?thesis unfolding contains_iff by blast
qed

lemma contains_append2: "contains p b \<Longrightarrow> contains p (a @ b)"
proof -
  assume "contains p b"
  then obtain x y where "b = x @ p @ y" unfolding contains_iff by blast
  then have "a @ b = (a @ x) @ p @ y" by simp
  then show ?thesis unfolding contains_iff by blast
qed

lemma prefix_before_char: "d \<notin> set p \<Longrightarrow> prefix p (a @ d # b) \<longleftrightarrow> prefix p a"
  by (auto simp: prefix_append prefix_Cons)

lemma contains_split_char:
  "d \<notin> set p \<Longrightarrow> contains p (a @ d # b) \<longleftrightarrow> contains p a \<or> contains p b"
proof (induction a)
  case Nil
  then show ?case by (cases b) (auto simp: prefix_Cons)
next
  case (Cons c a)
  from prefix_before_char [OF Cons.prems, of "c # a" b]
  have "prefix p (c # a @ d # b) = prefix p (c # a)" by simp
  with Cons show ?case by auto
qed

lemma contains_skip:
  "hd p = h \<Longrightarrow> p \<noteq> [] \<Longrightarrow> h \<notin> set a \<Longrightarrow> contains p (a @ b) \<Longrightarrow> contains p b"
proof (induction a)
  case Nil
  then show ?case by simp
next
  case (Cons c a)
  then have "\<not> prefix p (c # a @ b)" by (cases p) auto
  with Cons show ?case by auto
qed

lemma marker_free_appendD: "marker_free (a @ b) \<Longrightarrow> marker_free a \<and> marker_free b"
  unfolding marker_free_def by (blast intro: contains_append1 contains_append2)

lemma marker_free_nl: "marker_free (a @ nl # b) \<longleftrightarrow> marker_free a \<and> marker_free b"
proof -
  have "nl \<notin> set block_start" "nl \<notin> set block_end"
    by (simp_all add: block_start_def block_end_def nl_def)
  then show ?thesis
    unfolding marker_free_def by (simp add: contains_split_char) blast
qed

lemma marker_free_Nil [simp]: "marker_free []"
  by (simp add: marker_free_def block_start_def block_end_def)

lemma marker_free_drop_match:
  assumes "a = [] \<or> last a = nl" and "marker_free (a @ w @ r)"
  shows "marker_free (a @ r)"
proof (cases "a = []")
  case True
  with assms(2) show ?thesis by (auto dest: marker_free_appendD)
next
  case False
  with assms(1) obtain a0 where a: "a = a0 @ [nl]"
    by (metis append_butlast_last_id)
  with assms(2) have "marker_free (a0 @ nl # (w @ r))" by simp
  then have "marker_free a0" "marker_free r"
    unfolding marker_free_nl by (auto dest: marker_free_appendD)
  then show ?thesis unfolding a by (simp add: marker_free_nl)
qed

lemma marker_free_replace_match:
  assumes "marker_free (a @ w @ r)"
  shows "marker_free (a @ nl # r)"
proof -
  from assms have "marker_free a" "marker_free r"
    by (auto dest!: marker_free_appendD)
  then show ?thesis by (simp add: marker_free_nl)
qed

text \<open>A scan keeps a text free of markers when every match is replaced by a
  newline, or stands at the start of a line and is removed.\<close>

lemma subn_from_marker_free:
  assumes S: "\<And>bol s g r. consuming s (m bol s) = Some (g, r) \<Longrightarrow>
                (\<exists>w. s = w @ r) \<and> ((repl g = [] \<and> bol) \<or> repl g = [nl])"
  shows "(bol \<longrightarrow> a = [] \<or> last a = nl) \<Longrightarrow> marker_free (a @ t) \<Longrightarrow>
         marker_free (a @ fst (subn_from m repl bol t))"
proof (induction "length t" arbitrary: t bol a rule: less_induct)
  case less
  show ?case
  proof (cases "consuming t (m bol t)")
    case None
    show ?thesis
    proof (cases t)
      case Nil
      with less.prems show ?thesis by simp
    next
      case (Cons c cs)
      have "marker_free ((a @ [c]) @ fst (subn_from m repl (c = nl) cs))"
        using less.prems Cons by (intro less.hyps) simp_all
      then show ?thesis using None Cons by (simp add: subn_from_copy)
    qed
  next
    case (Some x)
    obtain g r where x: "x = (g, r)" by (cases x)
    with Some have cs: "consuming t (m bol t) = Some (g, r)" by simp
    from S [OF cs] obtain w where t: "t = w @ r"
      and k: "(repl g = [] \<and> bol) \<or> repl g = [nl]" by blast
    have lt: "length r < length t" using cs by (rule consuming_shorter)
    let ?b = "last (between t r) = nl"
    note out = subn_from_replace [where m = m and bol = bol and s = t and repl = repl, OF cs]
    from k show ?thesis
    proof
      assume e: "repl g = [] \<and> bol"
      with less.prems have a: "a = [] \<or> last a = nl" by simp
      have "marker_free (a @ r)"
        using a less.prems(2) unfolding t by (rule marker_free_drop_match)
      with a have "marker_free (a @ fst (subn_from m repl ?b r))"
        by (intro less.hyps [OF lt]) simp_all
      then show ?thesis
        using e out by simp
    next
      assume e: "repl g = [nl]"
      from less.prems(2) have "marker_free (a @ nl # r)"
        unfolding t by (rule marker_free_replace_match)
      then have "marker_free ((a @ [nl]) @ fst (subn_from m repl ?b r))"
        by (intro less.hyps [OF lt]) simp_all
      then show ?thesis
        using e out by simp
    qed
  qed
qed

text \<open>The scan up to a marker line.\<close>

lemma subn_from_before_marker:
  assumes P: "\<And>bol u g rest.
                consuming (u @ nl # M @ v) (m bol (u @ nl # M @ v)) = Some (g, rest) \<Longrightarrow>
                (\<exists>u1 u2. u = u1 @ u2 \<and> rest = u2 @ nl # M @ v)
                \<or> (rest = M @ v \<and> repl g = [nl])"
    and R: "\<And>bol s g r. consuming s (m bol s) = Some (g, r) \<Longrightarrow>
                (repl g = [] \<and> bol) \<or> repl g = [nl]"
  shows "(bol \<longrightarrow> a = [] \<or> last a = nl) \<Longrightarrow>
         \<exists>u'. fst (subn_from m repl bol (u @ nl # M @ v))
                 = u' @ nl # fst (subn_from m repl True (M @ v))
             \<and> (marker_free (a @ u) \<longrightarrow> marker_free (a @ u'))
             \<and> subseq (content u') (content u)"
proof (induction "length u" arbitrary: u bol a rule: less_induct)
  case less
  let ?s = "u @ nl # M @ v"
  let ?tail = "fst (subn_from m repl True (M @ v))"
  show ?case
  proof (cases "consuming ?s (m bol ?s)")
    case None
    show ?thesis
    proof (cases u)
      case Nil
      with None have "fst (subn_from m repl bol ?s) = [] @ nl # ?tail"
        by (simp add: subn_from_copy)
      then show ?thesis using Nil by (intro exI [of _ "[]"]) simp
    next
      case (Cons c u0)
      have "\<exists>u'. fst (subn_from m repl (c = nl) (u0 @ nl # M @ v)) = u' @ nl # ?tail
             \<and> (marker_free ((a @ [c]) @ u0) \<longrightarrow> marker_free ((a @ [c]) @ u'))
             \<and> subseq (content u') (content u0)"
        using Cons by (intro less.hyps) simp_all
      then obtain u0' where
        e: "fst (subn_from m repl (c = nl) (u0 @ nl # M @ v)) = u0' @ nl # ?tail"
        and h: "marker_free (a @ c # u0) \<longrightarrow> marker_free (a @ c # u0')"
        and s: "subseq (content u0') (content u0)" by auto
      have "fst (subn_from m repl bol ?s) = (c # u0') @ nl # ?tail"
        using None Cons e by (simp add: subn_from_copy)
      moreover have "marker_free (a @ u) \<longrightarrow> marker_free (a @ c # u0')"
        using h Cons by simp
      moreover have "subseq (content (c # u0')) (content u)"
        using s Cons by (simp add: content_def)
      ultimately show ?thesis by blast
    qed
  next
    case (Some x)
    obtain g rest where x: "x = (g, rest)" by (cases x)
    with Some have cs: "consuming ?s (m bol ?s) = Some (g, rest)" by simp
    let ?b = "last (between ?s rest) = nl"
    note out = subn_from_replace [where m = m and bol = bol and s = ?s and repl = repl, OF cs]
    from P [OF cs] show ?thesis
    proof
      assume "\<exists>u1 u2. u = u1 @ u2 \<and> rest = u2 @ nl # M @ v"
      then obtain u1 u2 where u: "u = u1 @ u2" and r: "rest = u2 @ nl # M @ v" by blast
      from consuming_shorter [OF cs] u r have lt: "length u2 < length u" by simp
      from R [OF cs] show ?thesis
      proof
        assume k: "repl g = [] \<and> bol"
        with less.prems have a: "a = [] \<or> last a = nl" by simp
        then have "\<exists>u'. fst (subn_from m repl ?b (u2 @ nl # M @ v)) = u' @ nl # ?tail
             \<and> (marker_free (a @ u2) \<longrightarrow> marker_free (a @ u'))
             \<and> subseq (content u') (content u2)"
          by (intro less.hyps [OF lt]) simp
        then obtain u2' where
          e: "fst (subn_from m repl ?b (u2 @ nl # M @ v)) = u2' @ nl # ?tail"
          and h: "marker_free (a @ u2) \<longrightarrow> marker_free (a @ u2')"
          and s: "subseq (content u2') (content u2)" by blast
        have "fst (subn_from m repl bol ?s) = u2' @ nl # ?tail"
          using out e r k by simp
        moreover have "marker_free (a @ u) \<longrightarrow> marker_free (a @ u2')"
          using h marker_free_drop_match [OF a, of u1 u2] u by blast
        moreover have "subseq (content u2') (content u)"
          using s u by (simp add: subseq_drop_many)
        ultimately show ?thesis by blast
      next
        assume k: "repl g = [nl]"
        have "\<exists>u'. fst (subn_from m repl ?b (u2 @ nl # M @ v)) = u' @ nl # ?tail
             \<and> (marker_free ((a @ [nl]) @ u2) \<longrightarrow> marker_free ((a @ [nl]) @ u'))
             \<and> subseq (content u') (content u2)"
          by (intro less.hyps [OF lt]) simp
        then obtain u2' where
          e: "fst (subn_from m repl ?b (u2 @ nl # M @ v)) = u2' @ nl # ?tail"
          and h: "marker_free (a @ nl # u2) \<longrightarrow> marker_free (a @ nl # u2')"
          and s: "subseq (content u2') (content u2)" by auto
        have "fst (subn_from m repl bol ?s) = (nl # u2') @ nl # ?tail"
          using out e r k by simp
        moreover have "marker_free (a @ u) \<longrightarrow> marker_free (a @ nl # u2')"
          using h marker_free_replace_match [of a u1 u2] u by blast
        moreover have "subseq (content (nl # u2')) (content u)"
          using s u by (simp add: subseq_drop_many)
        ultimately show ?thesis by blast
      qed
    next
      assume b: "rest = M @ v \<and> repl g = [nl]"
      then have "?s = (u @ [nl]) @ rest" by simp
      then have "between ?s rest = u @ [nl]" by (simp only: between_append)
      then have "?b" by simp
      then have "fst (subn_from m repl bol ?s) = [] @ nl # ?tail"
        using out b by simp
      moreover have "marker_free (a @ u) \<longrightarrow> marker_free (a @ [])"
        by (auto dest: marker_free_appendD)
      ultimately show ?thesis by (intro exI [of _ "[]"]) simp
    qed
  qed
qed

text \<open>The scan along a line when the pattern cannot start inside a line.\<close>

lemma subn_from_along_line:
  assumes P3: "\<And>c x. c \<noteq> nl \<Longrightarrow> consuming (c # x) (m False (c # x)) = None"
  shows "nl \<notin> set S \<Longrightarrow>
         fst (subn_from m repl False (S @ w)) = S @ fst (subn_from m repl False w)"
proof (induction S)
  case Nil
  then show ?case by simp
next
  case (Cons c S)
  then have c: "c \<noteq> nl" by auto
  from P3 [OF c] have "consuming (c # S @ w) (m False (c # S @ w)) = None" .
  then show ?case using Cons c by (simp add: subn_from_copy)
qed

text \<open>What a match of the directive pattern looks like.\<close>

lemma eol_multiline_SomeD:
  "eol_multiline k s = Some r \<Longrightarrow> (s = [] \<or> hd s = nl) \<and> k s = Some r"
  by (auto simp: eol_multiline_def split: if_splits)

lemma is_space_hash [simp]: "\<not> is_space CHR ''#''"
  by (simp add: is_space_def)

lemma list_all_space_no_hash: "list_all is_space w \<Longrightarrow> CHR ''#'' \<notin> set w"
  by (auto simp: list_all_iff)

lemma list_all_not_nl: "list_all not_nl w \<Longrightarrow> nl \<notin> set w"
  by (auto simp: list_all_iff not_nl_def)

lemma no_marker_inside:
  assumes "CHR ''#'' \<notin> set a" and "nl \<notin> set dots" and "CHR ''#'' \<notin> set b"
  shows "a @ CHR '','' # dots @ b \<noteq> x @ nl # CHR ''#'' # y"
proof
  assume eq: "a @ CHR '','' # dots @ b = x @ nl # CHR ''#'' # y"
  have c: "CHR '','' \<noteq> nl" "CHR '','' \<noteq> CHR ''#''" by (simp_all add: nl_def)
  from eq [unfolded append_eq_append_conv2] obtain us where
    "(a = x @ us \<and> us @ CHR '','' # dots @ b = nl # CHR ''#'' # y)
     \<or> (a @ us = x \<and> CHR '','' # dots @ b = us @ nl # CHR ''#'' # y)" by blast
  then show False
  proof
    assume A: "a = x @ us \<and> us @ CHR '','' # dots @ b = nl # CHR ''#'' # y"
    show False
    proof (cases us)
      case Nil
      with A c show False by simp
    next
      case (Cons c1 us1)
      show False
      proof (cases us1)
        case Nil
        with A Cons c show False by simp
      next
        case (Cons c2 us2)
        with A \<open>us = c1 # us1\<close> have "c2 = CHR ''#''" "c2 \<in> set a" by auto
        with assms(1) show False by simp
      qed
    qed
  next
    assume B: "a @ us = x \<and> CHR '','' # dots @ b = us @ nl # CHR ''#'' # y"
    then obtain us1 where us: "us = CHR '','' # us1" and d: "dots @ b = us1 @ nl # CHR ''#'' # y"
      using c by (cases us) auto
    from d [unfolded append_eq_append_conv2] obtain vs where
      "(dots = us1 @ vs \<and> vs @ b = nl # CHR ''#'' # y)
       \<or> (dots @ vs = us1 \<and> b = vs @ nl # CHR ''#'' # y)" by blast
    then show False
    proof
      assume "dots = us1 @ vs \<and> vs @ b = nl # CHR ''#'' # y"
      then show False using assms(2,3) by (cases vs) auto
    next
      assume "dots @ vs = us1 \<and> b = vs @ nl # CHR ''#'' # y"
      then show False using assms(3) by auto
    qed
  qed
qed

lemma metadata_not_inside_line:
  "consuming (c # x) (metadata_line_pattern p False (c # x)) = None"
  by (simp add: metadata_line_pattern_def)

lemma blank_lines_pattern_SomeD:
  "blank_lines_pattern bol s = Some (g, r) \<Longrightarrow>
   \<exists>ws. s = (nl # ws @ [nl]) @ r \<and> list_all is_space ws"
  unfolding blank_lines_pattern_def
  by (auto dest!: lit_SomeD star_SomeD)

lemma blank_not_inside_line:
  "c \<noteq> nl \<Longrightarrow> consuming (c # x) (blank_lines_pattern bol (c # x)) = None"
  by (simp add: blank_lines_pattern_def lit_def)

lemma metadata_line_pattern_SomeD:
  assumes "metadata_line_pattern p bol s = Some (g, r)"
  shows "bol \<and> (\<exists>A w dots b.
             s = (A @ p @ CHR 0x22 # w @ CHR '','' # dots @ b) @ r
           \<and> A \<noteq> [] \<and> CHR ''#'' \<notin> set A \<and> list_all is_space w
           \<and> nl \<notin> set dots \<and> CHR ''#'' \<notin> set b \<and> (r = [] \<or> hd r = nl))"
proof -
  let ?res = "Some (g, r)"
  let ?k = "\<lambda>r. Some ((), r)"
  from assms(1) have bol: bol
    and a0: "star is_space (lit ''set_metadata'' (opt (lit ''_recursive'') (lit ''(''
             (star is_space (lit ([CHR 0x22] @ p @ [CHR 0x22]) (star is_space (lit '',''
               (lazy not_nl (lit '');'' (star is_space
                 (eol_multiline ?k))))))))))) s = ?res"
    by (auto simp: metadata_line_pattern_def split: if_splits)
  from star_SomeD [OF a0] obtain w1 t1 where s1: "s = w1 @ t1" and w1: "list_all is_space w1"
    and a1: "lit ''set_metadata'' (opt (lit ''_recursive'') (lit ''(''
             (star is_space (lit ([CHR 0x22] @ p @ [CHR 0x22]) (star is_space (lit '',''
               (lazy not_nl (lit '');'' (star is_space
                 (eol_multiline ?k)))))))))) t1 = ?res" by blast
  from lit_SomeD [OF a1] obtain t2 where s2: "t1 = ''set_metadata'' @ t2"
    and a2: "opt (lit ''_recursive'') (lit ''(''
             (star is_space (lit ([CHR 0x22] @ p @ [CHR 0x22]) (star is_space (lit '',''
               (lazy not_nl (lit '');'' (star is_space
                 (eol_multiline ?k))))))))) t2 = ?res" by blast
  let ?paren = "lit ''(''
             (star is_space (lit ([CHR 0x22] @ p @ [CHR 0x22]) (star is_space (lit '',''
               (lazy not_nl (lit '');'' (star is_space
                 (eol_multiline ?k))))))))"
  have "\<exists>rc t3. t2 = rc @ t3 \<and> (rc = ''_recursive'' \<or> rc = []) \<and> ?paren t3 = ?res"
  proof -
    from opt_SomeD [OF a2] show ?thesis
    proof
      assume "lit ''_recursive'' ?paren t2 = ?res"
      from lit_SomeD [OF this] obtain t3 where "t2 = ''_recursive'' @ t3" "?paren t3 = ?res"
        by blast
      then show ?thesis by blast
    next
      assume "?paren t2 = ?res"
      then have "t2 = [] @ t2 \<and> ([] = ''_recursive'' \<or> [] = []) \<and> ?paren t2 = ?res"
        by simp
      then show ?thesis by blast
    qed
  qed
  then obtain rc t3 where s3: "t2 = rc @ t3"
    and rc: "rc = ''_recursive'' \<or> rc = []" and a3: "?paren t3 = ?res"
    by blast
  from lit_SomeD [OF a3] obtain t4 where s4: "t3 = ''('' @ t4"
    and a4: "star is_space (lit ([CHR 0x22] @ p @ [CHR 0x22]) (star is_space (lit '',''
               (lazy not_nl (lit '');'' (star is_space
                 (eol_multiline ?k))))))) t4 = ?res" by blast
  from star_SomeD [OF a4] obtain w5 t5 where s5: "t4 = w5 @ t5" and w5: "list_all is_space w5"
    and a5: "lit ([CHR 0x22] @ p @ [CHR 0x22]) (star is_space (lit '',''
               (lazy not_nl (lit '');'' (star is_space
                 (eol_multiline ?k)))))) t5 = ?res" by blast
  from lit_SomeD [OF a5] obtain t6 where s6: "t5 = ([CHR 0x22] @ p @ [CHR 0x22]) @ t6"
    and a6: "star is_space (lit '',''
               (lazy not_nl (lit '');'' (star is_space
                 (eol_multiline ?k))))) t6 = ?res" by blast
  from star_SomeD [OF a6] obtain w7 t7 where s7: "t6 = w7 @ t7" and w7: "list_all is_space w7"
    and a7: "lit '','' (lazy not_nl (lit '');'' (star is_space
                 (eol_multiline ?k)))) t7 = ?res" by blast
  from lit_SomeD [OF a7] obtain t8 where s8: "t7 = '','' @ t8"
    and a8: "lazy not_nl (lit '');'' (star is_space (eol_multiline ?k))) t8 = ?res" by blast
  from lazy_SomeD [OF a8] obtain dots t9 where s9: "t8 = dots @ t9"
    and dots: "list_all not_nl dots"
    and a9: "lit '');'' (star is_space (eol_multiline ?k)) t9 = ?res" by blast
  from lit_SomeD [OF a9] obtain t10 where s10: "t9 = '');'' @ t10"
    and a10: "star is_space (eol_multiline ?k) t10 = ?res" by blast
  from star_SomeD [OF a10] obtain w11 t11 where s11: "t10 = w11 @ t11"
    and w11: "list_all is_space w11" and a11: "eol_multiline ?k t11 = ?res" by blast
  from eol_multiline_SomeD [OF a11] have e: "t11 = [] \<or> hd t11 = nl" and r: "r = t11" by auto
  let ?A = "w1 @ ''set_metadata'' @ rc @ ''('' @ w5 @ [CHR 0x22]"
  let ?b = "'');'' @ w11"
  have "s = (?A @ p @ CHR 0x22 # w7 @ CHR '','' # dots @ ?b) @ r"
    using s1 s2 s3 s4 s5 s6 s7 s8 s9 s10 s11 r by simp
  moreover have "?A \<noteq> []" by simp
  moreover have "CHR ''#'' \<notin> set ?A"
    using w1 w5 rc by (auto dest: list_all_space_no_hash)
  moreover have "nl \<notin> set dots" using dots by (rule list_all_not_nl)
  moreover have "CHR ''#'' \<notin> set ?b" using w11 by (auto dest: list_all_space_no_hash)
  moreover have "r = [] \<or> hd r = nl" using e r by simp
  ultimately show ?thesis using bol w7 by blast
qed

lemma marker_facts:
  assumes "M = block_start \<or> M = block_end"
  shows "M \<noteq> []" and "hd M = CHR ''#''" and "CHR 0x22 \<notin> set M" and "nl \<notin> set M"
    and "CHR ''#'' \<notin> set (tl M)" and "CHR '','' \<notin> set M" and "CHR '')'' \<notin> set M"
  using assms by (auto simp: block_start_def block_end_def nl_def)

text \<open>A match of the directive pattern ends before a marker line.\<close>

lemma metadata_before_marker:
  assumes M: "M = block_start \<or> M = block_end" and p: "\<not> contains M p"
    and c: "consuming (u @ nl # M @ v)
              (metadata_line_pattern p bol (u @ nl # M @ v)) = Some (g, rest)"
  shows "\<exists>u1 u2. u = u1 @ u2 \<and> rest = u2 @ nl # M @ v"
proof -
  note mf = marker_facts [OF M]
  from metadata_line_pattern_SomeD [OF consuming_SomeD [OF c]] obtain A w dots b where
    s: "u @ nl # M @ v = (A @ p @ CHR 0x22 # w @ CHR '','' # dots @ b) @ rest"
    and A: "CHR ''#'' \<notin> set A" and w: "list_all is_space w"
    and d: "nl \<notin> set dots" and b: "CHR ''#'' \<notin> set b"
    and e: "rest = [] \<or> hd rest = nl" by blast
  let ?B = "CHR 0x22 # w @ CHR '','' # dots @ b"
  let ?mt = "A @ p @ ?B"
  obtain M' where M': "M = CHR ''#'' # M'" using mf(1,2) by (cases M) auto
  from s have "?mt @ rest = u @ nl # M @ v" by simp
  from append_eq_append_conv2 [THEN iffD1, OF this] obtain us where
    "(?mt = u @ us \<and> us @ rest = nl # M @ v)
     \<or> (?mt @ us = u \<and> rest = us @ nl # M @ v)" by blast
  then show ?thesis
  proof
    assume "?mt @ us = u \<and> rest = us @ nl # M @ v"
    then show ?thesis by blast
  next
    assume C: "?mt = u @ us \<and> us @ rest = nl # M @ v"
    show ?thesis
    proof (cases us)
      case Nil
      with C have "u = u @ [] \<and> rest = [] @ nl # M @ v" by simp
      then show ?thesis by blast
    next
      case (Cons c1 us1)
      show ?thesis
      proof (cases us1)
        case Nil
        with C Cons have "rest = M @ v" by simp
        with e M' show ?thesis by (simp add: nl_def)
      next
        case (Cons c2 us2)
        with C \<open>us = c1 # us1\<close> M' have mt: "A @ (p @ ?B) = (u @ [nl]) @ CHR ''#'' # us2"
          and tl: "us2 @ rest = M' @ v" by simp_all
        have "\<exists>ws. A @ ws = u @ [nl] \<and> p @ ?B = ws @ CHR ''#'' # us2"
        proof -
          from append_eq_append_conv2 [THEN iffD1, OF mt] obtain ws where
            "(A = (u @ [nl]) @ ws \<and> ws @ p @ ?B = CHR ''#'' # us2)
             \<or> (A @ ws = u @ [nl] \<and> p @ ?B = ws @ CHR ''#'' # us2)" by blast
          then show ?thesis
          proof
            assume D: "A = (u @ [nl]) @ ws \<and> ws @ p @ ?B = CHR ''#'' # us2"
            show ?thesis
            proof (cases ws)
              case Nil
              with D have "A @ [] = u @ [nl] \<and> p @ ?B = [] @ CHR ''#'' # us2" by simp
              then show ?thesis by blast
            next
              case (Cons x xs)
              with D have "CHR ''#'' \<in> set A" by auto
              with A show ?thesis by simp
            qed
          next
            assume "A @ ws = u @ [nl] \<and> p @ ?B = ws @ CHR ''#'' # us2"
            then show ?thesis by blast
          qed
        qed
        then obtain ws where ws: "A @ ws = u @ [nl]" and pB: "p @ ?B = ws @ CHR ''#'' # us2"
          by blast
        from append_eq_append_conv2 [THEN iffD1, OF pB] obtain zs where
          "(p = ws @ zs \<and> zs @ ?B = CHR ''#'' # us2)
           \<or> (p @ zs = ws \<and> ?B = zs @ CHR ''#'' # us2)" by blast
        then have False
        proof
          assume E: "p = ws @ zs \<and> zs @ ?B = CHR ''#'' # us2"
          show False
          proof (cases zs)
            case Nil
            with E show False by simp
          next
            case (Cons z zs')
            with E have z: "z = CHR ''#''" and us2: "us2 = zs' @ ?B" by auto
            from tl us2 have "zs' @ (?B @ rest) = M' @ v" by simp
            from append_eq_append_conv2 [THEN iffD1, OF this] obtain ts where
              "(zs' = M' @ ts \<and> ts @ ?B @ rest = v)
               \<or> (zs' @ ts = M' \<and> ?B @ rest = ts @ v)" by blast
            then show False
            proof
              assume "zs' = M' @ ts \<and> ts @ ?B @ rest = v"
              with E Cons z M' have "p = ws @ M @ ts" by simp
              then have "contains M p" unfolding contains_iff by blast
              with p show False by simp
            next
              assume F: "zs' @ ts = M' \<and> ?B @ rest = ts @ v"
              show False
              proof (cases ts)
                case Nil
                with F E Cons z M' have "p = ws @ M @ []" by simp
                then have "contains M p" unfolding contains_iff by blast
                with p show False by simp
              next
                case (Cons t ts')
                with F have "t = CHR 0x22" "t \<in> set M'" by auto
                with mf(3) M' show False by simp
              qed
            qed
          qed
        next
          assume G: "p @ zs = ws \<and> ?B = zs @ CHR ''#'' # us2"
          show False
          proof (cases "zs = []")
            case True
            with G show False by simp
          next
            case False
            from G ws have "A @ p @ zs = u @ [nl]" by simp
            with False have "last zs = nl"
              by (metis append_is_Nil_conv last_appendR last_snoc)
            with False obtain zs0 where zs: "zs = zs0 @ [nl]"
              by (metis append_butlast_last_id)
            have h: "CHR ''#'' \<notin> set (CHR 0x22 # w)"
              using w by (auto dest: list_all_space_no_hash)
            from G zs have "(CHR 0x22 # w) @ CHR '','' # dots @ b = zs0 @ nl # CHR ''#'' # us2"
              by simp
            with no_marker_inside [OF h d b] show False by blast
          qed
        qed
        then show ?thesis ..
      qed
    qed
  qed
qed

lemma metadata_not_at_marker:
  assumes "M = block_start \<or> M = block_end"
  shows "consuming (M @ v) (metadata_line_pattern p bol (M @ v)) = None"
proof (cases "metadata_line_pattern p bol (M @ v)")
  case None
  then show ?thesis by simp
next
  case (Some x)
  obtain g r where "x = (g, r)" by (cases x)
  with Some metadata_line_pattern_SomeD obtain A rest where
    "M @ v = A @ rest" "A \<noteq> []" "CHR ''#'' \<notin> set A"
    by (metis append.assoc)
  with marker_facts(1,2) [OF assms] show ?thesis by (cases A; cases M) auto
qed

text \<open>The pattern of blank lines.\<close>

lemma blank_before_marker:
  assumes M: "M = block_start \<or> M = block_end"
    and c: "consuming (u @ nl # M @ v)
              (blank_lines_pattern bol (u @ nl # M @ v)) = Some (g, rest)"
  shows "(\<exists>u1 u2. u = u1 @ u2 \<and> rest = u2 @ nl # M @ v) \<or> rest = M @ v"
proof -
  note mf = marker_facts [OF M]
  obtain M' where M': "M = CHR ''#'' # M'" using mf(1,2) by (cases M) auto
  from blank_lines_pattern_SomeD [OF consuming_SomeD [OF c]] obtain ws where
    s: "u @ nl # M @ v = (nl # ws @ [nl]) @ rest" and ws: "list_all is_space ws"
    by blast
  let ?mt = "nl # ws @ [nl]"
  have h: "CHR ''#'' \<notin> set ?mt" using ws by (auto simp: nl_def dest: list_all_space_no_hash)
  from s have "?mt @ rest = u @ nl # M @ v" by simp
  from append_eq_append_conv2 [THEN iffD1, OF this] obtain us where
    "(?mt = u @ us \<and> us @ rest = nl # M @ v)
     \<or> (?mt @ us = u \<and> rest = us @ nl # M @ v)" by blast
  then show ?thesis
  proof
    assume A: "?mt = u @ us \<and> us @ rest = nl # M @ v"
    show ?thesis
    proof (cases us)
      case Nil
      with A have "u = u @ [] \<and> rest = [] @ nl # M @ v" by simp
      then show ?thesis by blast
    next
      case (Cons c1 us1)
      show ?thesis
      proof (cases us1)
        case Nil
        with A Cons show ?thesis by simp
      next
        case (Cons c2 us2)
        with A \<open>us = c1 # us1\<close> M' have c2: "c2 = CHR ''#''"
          and mt: "?mt = u @ c1 # c2 # us2"
          by simp_all
        have "c2 \<in> set (u @ c1 # c2 # us2)" by simp
        with h c2 mt show ?thesis by metis
      qed
    qed
  next
    assume "?mt @ us = u \<and> rest = us @ nl # M @ v"
    then show ?thesis by blast
  qed
qed

lemma blank_rest_suffix:
  "blank_lines_pattern bol s = Some (g, r) \<Longrightarrow> \<exists>w. s = w @ r"
  by (blast dest: blank_lines_pattern_SomeD)

text \<open>A stage of the merge on a text that ends with a managed block.\<close>

lemma stage_blocked:
  assumes P: "\<And>M bol u v g rest. M = block_start \<or> M = block_end \<Longrightarrow>
                consuming (u @ nl # M @ v) (m bol (u @ nl # M @ v)) = Some (g, rest) \<Longrightarrow>
                (\<exists>u1 u2. u = u1 @ u2 \<and> rest = u2 @ nl # M @ v)
                \<or> (rest = M @ v \<and> repl g = [nl])"
    and P2: "\<And>M bol v. M = block_start \<or> M = block_end \<Longrightarrow>
                consuming (M @ v) (m bol (M @ v)) = None"
    and P3: "\<And>c x. c \<noteq> nl \<Longrightarrow> consuming (c # x) (m False (c # x)) = None"
    and R: "\<And>bol s g r. consuming s (m bol s) = Some (g, r) \<Longrightarrow>
                (repl g = [] \<and> bol) \<or> repl g = [nl]"
    and X: "marker_free X" and Y: "marker_free Y"
  shows "\<exists>X' Y'. fst (subn_from m repl True (X @ [nl] @ block_start @ Y @ [nl] @ block_end))
                    = X' @ [nl] @ block_start @ Y' @ [nl] @ block_end
               \<and> marker_free X' \<and> marker_free Y' \<and> subseq (content X') (content X)"
proof -
  have before: "\<exists>u'. fst (subn_from m repl b (u @ nl # M @ v))
                        = u' @ nl # fst (subn_from m repl True (M @ v))
                    \<and> (marker_free ([] @ u) \<longrightarrow> marker_free ([] @ u'))
                    \<and> subseq (content u') (content u)"
    if "M = block_start \<or> M = block_end" for b u v M
  proof (rule subn_from_before_marker [where m = m and repl = repl and a = "[]"])
    show "b \<longrightarrow> [] = [] \<or> last [] = nl" by simp
    show "(repl g = [] \<and> bol) \<or> repl g = [nl]"
      if "consuming s (m bol s) = Some (g, r)" for bol s g r
      using that by (rule R)
    show "(\<exists>u1 u2. u0 = u1 @ u2 \<and> rest = u2 @ nl # M @ v)
          \<or> (rest = M @ v \<and> repl g = [nl])"
      if "consuming (u0 @ nl # M @ v) (m bol (u0 @ nl # M @ v)) = Some (g, rest)"
      for bol u0 g rest
      using \<open>M = block_start \<or> M = block_end\<close> that by (rule P)
  qed
  have along: "fst (subn_from m repl False (S @ w)) = S @ fst (subn_from m repl False w)"
    if "nl \<notin> set S" for S w
    using that by (rule subn_from_along_line [where m = m, rotated]) (rule P3)
  have marker: "fst (subn_from m repl b (M @ v)) = M @ fst (subn_from m repl False v)"
    if M: "M = block_start \<or> M = block_end" for b M v
  proof -
    note mf = marker_facts [OF M]
    obtain M' where M': "M = CHR ''#'' # M'" using mf(1,2) by (cases M) auto
    with mf(4) have n: "nl \<notin> set M'" by simp
    from P2 [OF M, where bol = b and v = v] have "consuming (CHR ''#'' # M' @ v) (m b (CHR ''#'' # M' @ v)) = None"
      by (simp add: M')
    from subn_from_copy [where m = m and repl = repl, OF this] along [OF n, where w = v]
    show ?thesis by (simp add: M' nl_def)
  qed
  let ?v = "Y @ nl # block_end @ []"
  from before [where M = block_start and b = True and u = X and v = ?v]
  obtain X' where
    e1: "fst (subn_from m repl True (X @ nl # block_start @ ?v))
           = X' @ nl # fst (subn_from m repl True (block_start @ ?v))"
    and X': "marker_free X \<longrightarrow> marker_free X'" and sub: "subseq (content X') (content X)"
    by auto
  have e2: "fst (subn_from m repl True (block_start @ ?v))
              = block_start @ fst (subn_from m repl False ?v)"
    by (rule marker) simp
  from before [where M = block_end and b = False and u = Y and v = "[]"]
  obtain Y' where
    e3: "fst (subn_from m repl False (Y @ nl # block_end @ []))
           = Y' @ nl # fst (subn_from m repl True (block_end @ []))"
    and Y': "marker_free Y \<longrightarrow> marker_free Y'" by auto
  have e4: "fst (subn_from m repl True (block_end @ [])) = block_end @ fst (subn_from m repl False [])"
    by (rule marker) simp
  have "fst (subn_from m repl True (X @ [nl] @ block_start @ Y @ [nl] @ block_end))
          = X' @ [nl] @ block_start @ Y' @ [nl] @ block_end"
    using e1 e2 e3 e4 by simp
  with X' Y' X Y sub show ?thesis by blast
qed

lemma remove_metadata_blocked:
  assumes p: "marker_free p" and X: "marker_free X" and Y: "marker_free Y"
  shows "\<exists>X' Y'. fst (subn (metadata_line_pattern p) (\<lambda>_. [])
                         (X @ [nl] @ block_start @ Y @ [nl] @ block_end))
                    = X' @ [nl] @ block_start @ Y' @ [nl] @ block_end
               \<and> marker_free X' \<and> marker_free Y' \<and> subseq (content X') (content X)"
  unfolding subn_def
proof (rule stage_blocked [OF _ _ _ _ X Y])
  show "(\<exists>u1 u2. u = u1 @ u2 \<and> rest = u2 @ nl # M @ v)
        \<or> (rest = M @ v \<and> [] = [nl])"
    if "M = block_start \<or> M = block_end"
      and "consuming (u @ nl # M @ v)
             (metadata_line_pattern p bol (u @ nl # M @ v)) = Some (g, rest)"
    for M bol u v g rest
  proof -
    from that(1) p have "\<not> contains M p" by (auto simp: marker_free_def)
    from metadata_before_marker [OF that(1) this that(2)] show ?thesis by blast
  qed
  show "consuming (M @ v) (metadata_line_pattern p bol (M @ v)) = None"
    if "M = block_start \<or> M = block_end" for M bol v
    using that by (rule metadata_not_at_marker)
  show "consuming (c # x) (metadata_line_pattern p False (c # x)) = None" for c x
    by (rule metadata_not_inside_line)
  show "([] = [] \<and> bol) \<or> [] = [nl]"
    if "consuming s (metadata_line_pattern p bol s) = Some (g, r)" for bol s g r
    using metadata_line_pattern_SomeD [OF consuming_SomeD [OF that]] by simp
qed

lemma blank_lines_blocked:
  assumes X: "marker_free X" and Y: "marker_free Y"
  shows "\<exists>X' Y'. sub blank_lines_pattern (\<lambda>_. [nl])
                    (X @ [nl] @ block_start @ Y @ [nl] @ block_end)
                    = X' @ [nl] @ block_start @ Y' @ [nl] @ block_end
               \<and> marker_free X' \<and> marker_free Y' \<and> subseq (content X') (content X)"
  unfolding sub_def subn_def
proof (rule stage_blocked [OF _ _ _ _ X Y])
  show "(\<exists>u1 u2. u = u1 @ u2 \<and> rest = u2 @ nl # M @ v)
        \<or> (rest = M @ v \<and> [nl] = [nl])"
    if "M = block_start \<or> M = block_end"
      and "consuming (u @ nl # M @ v)
             (blank_lines_pattern bol (u @ nl # M @ v)) = Some (g, rest)"
    for M bol u v g rest
    using blank_before_marker [OF that] by blast
  show "consuming (M @ v) (blank_lines_pattern bol (M @ v)) = None"
    if "M = block_start \<or> M = block_end" for M bol v
    using that by (auto simp: blank_lines_pattern_def lit_def block_start_def block_end_def nl_def)
  show "consuming (c # x) (blank_lines_pattern False (c # x)) = None" if "c \<noteq> nl" for c x
    using that by (rule blank_not_inside_line)
  show "([nl] = [] \<and> bol) \<or> [nl] = [nl]" for bol by simp
qed

text \<open>Stripping a text that ends with a managed block.\<close>

lemma dropWhile_before:
  "\<not> P c \<Longrightarrow> dropWhile P (xs @ c # ys) = dropWhile P xs @ c # ys"
  by (induction xs) auto

lemma strip_blocked:
  "strip (X @ [nl] @ block_start @ Y @ [nl] @ block_end)
         = dropWhile is_space (X @ [nl]) @ block_start @ Y @ [nl] @ block_end"
proof -
  let ?t = "X @ [nl] @ block_start @ Y @ [nl] @ block_end"
  have "?t = (X @ [nl] @ block_start @ Y @ [nl] @ ''# === End Tool Block =='') @ [CHR ''='']"
    by (simp add: block_end_def)
  then have "rstrip ?t = ?t"
    using rstrip_nonspace [of "CHR ''=''" "X @ [nl] @ block_start @ Y @ [nl] @ ''# === End Tool Block ==''"]
    by (simp add: is_space_def)
  moreover have "dropWhile is_space ((X @ [nl]) @ CHR ''#'' # ('' === Tool: auto-permission ==='' @ Y @ [nl] @ block_end))
                 = dropWhile is_space (X @ [nl]) @ CHR ''#'' # ('' === Tool: auto-permission ==='' @ Y @ [nl] @ block_end)"
    by (rule dropWhile_before) simp
  ultimately show ?thesis by (simp add: strip_def block_start_def)
qed

lemma star_take_all:
  "list_all p w \<Longrightarrow> t = [] \<or> \<not> p (hd t) \<Longrightarrow> k t = Some r \<Longrightarrow> star p k (w @ t) = Some r"
proof (induction w)
  case Nil
  then show ?case by (cases t) auto
next
  case (Cons c w)
  then show ?case by simp
qed

lemma subseq_content: "subseq xs ys \<Longrightarrow> subseq (content xs) (content ys)"
  by (simp add: content_def)

lemma content_dropWhile [simp]: "content (dropWhile is_space xs) = content xs"
  by (induction xs) (auto simp: content_def)

text \<open>The output of a merge is a body followed by the block.\<close>

lemma managed_block_shape:
  "body @ managed_block ls = (body @ [nl]) @ [nl] @ block_start @ (nl # join [nl] ls) @ [nl] @ block_end"
  by (simp add: managed_block_def block_start_def block_end_def nl_def)

lemma ensure_edify_stat_lines_body:
  "fst (ensure_edify_stat_lines script_text items) =
     merge_body script_text items
       @ managed_block (map (\<lambda>(edify_path, is_dir, mode). build_edify_line edify_path is_dir mode)
                          items)"
proof -
  obtain t a u ls where r: "remove_existing_lines items (script_text, 0, 0, []) = (t, a, u, ls)"
    by (cases "remove_existing_lines items (script_text, 0, 0, [])") auto
  have "ls = map (\<lambda>(edify_path, is_dir, mode). build_edify_line edify_path is_dir mode) items"
    using remove_existing_lines_lines_to_add [of items script_text 0 0 "[]"] r by simp
  then show ?thesis
    by (simp add: ensure_edify_stat_lines_def ensure_edify_locals_def merge_body_def r Let_def)
qed


text \<open>Removing the block.\<close>

lemma lazy_skip:
  assumes "\<And>w1 w2. w = w1 @ w2 \<Longrightarrow> w2 \<noteq> [] \<Longrightarrow> k (w2 @ t) = None"
    and "list_all p w" and "k t = Some r"
  shows "lazy p k (w @ t) = Some r"
  using assms
proof (induction w)
  case Nil
  then show ?case by (cases t) auto
next
  case (Cons c w)
  from Cons.prems(1) [of "[]" "c # w"] have n: "k (c # w @ t) = None" by simp
  have "lazy p k (w @ t) = Some r"
  proof (rule Cons.IH)
    show "k (w2 @ t) = None" if "w = w1 @ w2" "w2 \<noteq> []" for w1 w2
      using Cons.prems(1) [of "c # w1" w2] that by simp
    show "list_all p w" using Cons.prems(2) by simp
    show "k t = Some r" by fact
  qed
  with n Cons.prems(2) show ?case by simp
qed

lemma block_pattern_whole:
  assumes "list_all is_nl Z" and "\<not> contains block_end Y"
  shows "block_pattern bol (Z @ block_start @ (Y @ [nl]) @ block_end) = Some ((), [])"
proof -
  let ?k4 = "star is_nl (\<lambda>r. Some ((), r))"
  let ?k3 = "lit block_end ?k4"
  have n: "nl \<notin> set block_end" by (simp add: block_end_def nl_def)
  have none: "?k3 (w2 @ block_end) = None" if w: "Y @ [nl] = w1 @ w2" "w2 \<noteq> []" for w1 w2
  proof -
    from w obtain y2 where w2: "w2 = y2 @ [nl]" and Y: "Y = w1 @ y2"
      by (metis append_butlast_last_id butlast_append butlast_snoc last_appendR last_snoc)
    have "\<not> prefix block_end y2"
    proof
      assume "prefix block_end y2"
      then have "contains block_end y2" by (auto simp: contains_iff prefix_def)
      then have "contains block_end Y" unfolding Y by (rule contains_append2)
      with assms(2) show False by simp
    qed
    then have "\<not> prefix block_end (y2 @ nl # block_end)"
      using prefix_before_char [OF n, of y2 block_end] by simp
    then show ?thesis by (simp add: lit_def w2)
  qed
  have all: "list_all any_char (Y @ [nl])" by (simp add: list_all_iff any_char_def)
  have "?k3 block_end = Some ((), [])"
    using lit_append [of block_end ?k4 "[]"] by simp
  from lazy_skip [of "Y @ [nl]" ?k3 block_end any_char, OF none all this]
  have "lit block_start (lazy any_char ?k3) (block_start @ (Y @ [nl]) @ block_end) = Some ((), [])"
    by simp
  moreover have "block_start @ (Y @ [nl]) @ block_end = []
                 \<or> \<not> is_nl (hd (block_start @ (Y @ [nl]) @ block_end))"
    by (simp add: block_start_def is_nl_def nl_def)
  ultimately have "star is_nl (lit block_start (lazy any_char ?k3))
                     (Z @ block_start @ (Y @ [nl]) @ block_end) = Some ((), [])"
    using assms(1) by (intro star_take_all)
  then show ?thesis by (simp add: block_pattern_def)
qed

lemma block_pattern_needs_start:
  assumes "block_pattern bol s = Some x"
  shows "\<exists>w t. s = w @ block_start @ t \<and> list_all is_nl w"
proof -
  from assms obtain w t where s: "s = w @ t" and w: "list_all is_nl w"
    and l: "lit block_start (lazy any_char (lit block_end (star is_nl (\<lambda>r. Some ((), r))))) t
            = Some x"
    unfolding block_pattern_def by (blast dest: star_SomeD)
  from lit_SomeD [OF l] obtain t' where "t = block_start @ t'" by blast
  with s w show ?thesis by blast
qed

lemma block_pattern_not_before:
  assumes "\<not> list_all is_nl Z" and "last Z = nl" and "\<not> contains block_start Z"
  shows "block_pattern bol (Z @ block_start @ W) = None"
proof (rule ccontr)
  assume "block_pattern bol (Z @ block_start @ W) \<noteq> None"
  then obtain x where "block_pattern bol (Z @ block_start @ W) = Some x" by blast
  from block_pattern_needs_start [OF this] obtain w t where
    s: "Z @ block_start @ W = w @ block_start @ t" and w: "list_all is_nl w" by blast
  have n: "nl \<notin> set block_start" by (simp add: block_start_def nl_def)
  from append_eq_append_conv2 [THEN iffD1, OF s] obtain us where
    "(Z = w @ us \<and> us @ block_start @ W = block_start @ t)
     \<or> (Z @ us = w \<and> block_start @ W = us @ block_start @ t)" by blast
  then show False
  proof
    assume A: "Z = w @ us \<and> us @ block_start @ W = block_start @ t"
    with assms(1) w have "us \<noteq> []" by auto
    with A assms(2) have "last us = nl" by auto
    with \<open>us \<noteq> []\<close> obtain us0 where us: "us = us0 @ [nl]"
      by (metis append_butlast_last_id)
    from A us have "prefix block_start (us0 @ nl # block_start @ W)"
      by (simp add: prefix_def)
    then have "prefix block_start us0"
      using prefix_before_char [OF n, of us0 "block_start @ W"] by simp
    then have "contains block_start us0" by (auto simp: contains_iff prefix_def)
    then have "contains block_start Z"
      using A us by (auto intro: contains_append1 contains_append2)
    with assms(3) show False by simp
  next
    assume "Z @ us = w \<and> block_start @ W = us @ block_start @ t"
    with w assms(1) show False by auto
  qed
qed

lemma remove_block:
  assumes "\<not> contains block_end Y"
  shows "Z = [] \<or> last Z = nl \<Longrightarrow> \<not> contains block_start Z \<Longrightarrow>
         prefix (fst (subn_from block_pattern (\<lambda>_. []) bol
                        (Z @ block_start @ (Y @ [nl]) @ block_end))) Z"
proof (induction Z arbitrary: bol)
  case Nil
  have "block_pattern bol ([] @ block_start @ (Y @ [nl]) @ block_end) = Some ((), [])"
    by (rule block_pattern_whole [OF _ assms]) simp
  then have "consuming (block_start @ (Y @ [nl]) @ block_end)
               (block_pattern bol (block_start @ (Y @ [nl]) @ block_end)) = Some ((), [])"
    by (simp add: consuming_def block_start_def)
  from subn_from_replace [where m = block_pattern and repl = "\<lambda>_. []", OF this]
  show ?case by simp
next
  case (Cons c Z)
  let ?t = "(c # Z) @ block_start @ (Y @ [nl]) @ block_end"
  show ?case
  proof (cases "list_all is_nl (c # Z)")
    case True
    from block_pattern_whole [OF True assms, of bol]
    have "consuming ?t (block_pattern bol ?t) = Some ((), [])"
      by (simp add: consuming_def)
    from subn_from_replace [where m = block_pattern and repl = "\<lambda>_. []", OF this]
    show ?thesis by simp
  next
    case False
    from Cons.prems have l: "last (c # Z) = nl" by simp
    from block_pattern_not_before [OF False l Cons.prems(2), of bol "(Y @ [nl]) @ block_end"]
    have n: "consuming (c # Z @ block_start @ (Y @ [nl]) @ block_end)
               (block_pattern bol (c # Z @ block_start @ (Y @ [nl]) @ block_end)) = None"
      by simp
    have "Z = [] \<or> last Z = nl" using l by (cases Z) auto
    moreover have "\<not> contains block_start Z"
      using Cons.prems(2) contains_append2 [of block_start Z "[c]"] by auto
    ultimately have "prefix (fst (subn_from block_pattern (\<lambda>_. []) (c = nl)
                        (Z @ block_start @ (Y @ [nl]) @ block_end))) Z"
      by (rule Cons.IH)
    then show ?thesis
      using subn_from_copy [where m = block_pattern and repl = "\<lambda>_. []", OF n] by simp
  qed
qed

lemma sub_block_pattern_unchanged:
  assumes "\<not> contains block_start t"
  shows "sub block_pattern (\<lambda>_. []) t = t"
proof -
  have "\<forall>n<length t. \<forall>b. block_pattern b (drop n t @ []) = None"
  proof (intro allI impI)
    fix n b
    show "block_pattern b (drop n t @ []) = None"
    proof (rule ccontr)
      assume "block_pattern b (drop n t @ []) \<noteq> None"
      then obtain x where "block_pattern b (drop n t) = Some x" by auto
      from block_pattern_needs_start [OF this] have "contains block_start (drop n t)"
        unfolding contains_iff by blast
      then have "contains block_start (take n t @ drop n t)" by (rule contains_append2)
      with assms show False by simp
    qed
  qed
  from subn_from_unmatched_prefix [OF this, of "\<lambda>_. []" True]
  show ?thesis by (simp add: sub_def subn_def)
qed

text \<open>Stripping.\<close>

lemma strip_part: "\<exists>l r. t = l @ strip t @ r"
proof -
  have "rev (takeWhile is_space (rev t) @ dropWhile is_space (rev t)) = rev (rev t)"
    by (simp only: takeWhile_dropWhile_id)
  then have a: "t = rstrip t @ rev (takeWhile is_space (rev t))"
    by (simp only: rev_append rev_rev_ident rstrip_def)
  have b: "rstrip t = takeWhile is_space (rstrip t) @ strip t"
    by (simp add: strip_def)
  from a b have "t = takeWhile is_space (rstrip t) @ strip t @ rev (takeWhile is_space (rev t))"
    by (metis append.assoc)
  then show ?thesis by blast
qed

lemma marker_free_strip: "marker_free t \<Longrightarrow> marker_free (strip t)"
proof -
  assume m: "marker_free t"
  obtain l r where "t = l @ strip t @ r" using strip_part by blast
  with m have "marker_free (l @ strip t @ r)" by simp
  then show ?thesis by (blast dest: marker_free_appendD)
qed

text \<open>The lines of the block.\<close>

lemma contains_directive:
  assumes M: "M = block_start \<or> M = block_end"
    and h: "CHR ''#'' \<notin> set La" "CHR ''#'' \<notin> set Lb" "CHR ''#'' \<notin> set Lc"
           "CHR ''#'' \<notin> set Lz"
    and c: "c = CHR '')'' \<or> c = CHR '',''"
    and t: "contains M (La @ p @ CHR 0x22 # Lb @ (Lz @ m) @ c # Lc)"
  shows "contains M p \<or> contains M m"
proof -
  note mf = marker_facts [OF M]
  note skip = contains_skip [OF mf(2) mf(1)]
  have cM: "c \<notin> set M" using c mf(6,7) by auto
  from skip [OF h(1) t] have "contains M (p @ CHR 0x22 # Lb @ (Lz @ m) @ c # Lc)" .
  with contains_split_char [OF mf(3), of p "Lb @ (Lz @ m) @ c # Lc"]
  have "contains M p \<or> contains M (Lb @ (Lz @ m) @ c # Lc)" by blast
  then show ?thesis
  proof
    assume "contains M p"
    then show ?thesis ..
  next
    assume "contains M (Lb @ (Lz @ m) @ c # Lc)"
    from skip [OF h(2) this] have "contains M ((Lz @ m) @ c # Lc)" .
    with contains_split_char [OF cM, of "Lz @ m" Lc]
    have "contains M (Lz @ m) \<or> contains M Lc" by blast
    then show ?thesis
    proof
      assume "contains M (Lz @ m)"
      from skip [OF h(4) this] show ?thesis ..
    next
      assume "contains M Lc"
      then have "contains M (Lc @ [])" by simp
      from skip [OF h(3) this] mf(1) show ?thesis by simp
    qed
  qed
qed

lemma build_edify_line_marker_free:
  assumes "marker_free p" and "marker_free m"
  shows "marker_free (build_edify_line p d m)"
proof -
  have dir: \<open>build_edify_line p True m =
               ''set_metadata_recursive("'' @ p @ CHR 0x22
               # '', "uid", 0, "gid", 0, "mode", '' @ ((if length m = 3 then ''0'' else []) @ m)
               @ CHR '')'' # '';''\<close>
    by (simp add: build_edify_line_def)
  have fil: \<open>build_edify_line p False m =
               ''set_metadata("'' @ p @ CHR 0x22
               # '', "uid", 0, "gid", 0, "mode", '' @ ((if length m = 3 then ''0'' else []) @ m)
               @ CHR '','' # '' "context", "u:object_r:system_file:s0");''\<close>
    by (simp add: build_edify_line_def)
  have "contains M p \<or> contains M m"
    if M: "M = block_start \<or> M = block_end" and c: "contains M (build_edify_line p d m)" for M
  proof (cases d)
    case True
    with c have "contains M (build_edify_line p True m)" by simp
    then have \<open>contains M (''set_metadata_recursive("'' @ p @ CHR 0x22
               # '', "uid", 0, "gid", 0, "mode", '' @ ((if length m = 3 then ''0'' else []) @ m)
               @ CHR '')'' # '';'')\<close>
      by (simp only: dir)
    then show ?thesis
      by (rule contains_directive [OF M, rotated -1]) simp_all
  next
    case False
    with c have "contains M (build_edify_line p False m)" by simp
    then have \<open>contains M (''set_metadata("'' @ p @ CHR 0x22
               # '', "uid", 0, "gid", 0, "mode", '' @ ((if length m = 3 then ''0'' else []) @ m)
               @ CHR '','' # '' "context", "u:object_r:system_file:s0");'')\<close>
      by (simp only: fil)
    then show ?thesis
      by (rule contains_directive [OF M, rotated -1]) simp_all
  qed
  with assms show ?thesis unfolding marker_free_def by blast
qed

lemma join_marker_free:
  "\<forall>l \<in> set ls. marker_free l \<Longrightarrow> marker_free (join [nl] ls)"
  by (induction "[nl]" ls rule: join.induct) (auto simp: marker_free_nl)

lemma block_lines_marker_free:
  assumes "\<forall>(p, d, m) \<in> set items. marker_free p \<and> marker_free m"
  shows "marker_free (join [nl]
           (map (\<lambda>(edify_path, is_dir, mode). build_edify_line edify_path is_dir mode) items))"
  using assms by (intro join_marker_free) (auto simp: build_edify_line_marker_free)

text \<open>The body of an output.\<close>

lemma remove_existing_lines_marker_free:
  "marker_free t \<Longrightarrow> marker_free (fst (remove_existing_lines items (t, a, u, ls)))"
proof (induction items arbitrary: t a u ls)
  case Nil
  then show ?case by simp
next
  case (Cons i items)
  obtain p d m where i: "i = (p, d, m)" by (cases i)
  obtain t' n where s: "subn (metadata_line_pattern p) (\<lambda>_. []) t = (t', n)"
    by (cases "subn (metadata_line_pattern p) (\<lambda>_. []) t")
  have "marker_free ([] @ fst (subn_from (metadata_line_pattern p) (\<lambda>_. []) True t))"
  proof (rule subn_from_marker_free [where m = "metadata_line_pattern p"])
    show "(\<exists>w. s = w @ r) \<and> (([] = [] \<and> bol) \<or> [] = [nl])"
      if "consuming s (metadata_line_pattern p bol s) = Some (g, r)" for bol s g r
      using metadata_line_pattern_SomeD [OF consuming_SomeD [OF that]] by auto
    show "True \<longrightarrow> [] = [] \<or> last [] = nl" by simp
    show "marker_free ([] @ t)" using Cons.prems by simp
  qed
  with s have "marker_free t'" by (simp add: subn_def)
  from Cons.IH [OF this] show ?case using i s by simp
qed

lemma blank_lines_marker_free:
  assumes "marker_free t"
  shows "marker_free (sub blank_lines_pattern (\<lambda>_. [nl]) t)"
proof -
  have "marker_free ([] @ fst (subn_from blank_lines_pattern (\<lambda>_. [nl]) True t))"
  proof (rule subn_from_marker_free [where m = blank_lines_pattern])
    show "(\<exists>w. s = w @ r) \<and> (([nl] = [] \<and> bol) \<or> [nl] = [nl])"
      if "consuming s (blank_lines_pattern bol s) = Some (g, r)" for bol s g r
      using blank_rest_suffix [OF consuming_SomeD [OF that]] by simp
    show "True \<longrightarrow> [] = [] \<or> last [] = nl" by simp
    show "marker_free ([] @ t)" using assms by simp
  qed
  then show ?thesis by (simp add: sub_def subn_def)
qed

lemma merge_body_marker_free:
  assumes "marker_free script_text"
  shows "marker_free (merge_body script_text items)"
proof -
  let ?a = "fst (remove_existing_lines items (script_text, 0, 0, []))"
  let ?b = "sub blank_lines_pattern (\<lambda>_. [nl]) ?a"
  have "marker_free ?a" using assms by (rule remove_existing_lines_marker_free)
  then have "marker_free ?b" by (rule blank_lines_marker_free)
  then have c: "marker_free (strip ?b)" by (rule marker_free_strip)
  then have "\<not> contains block_start (strip ?b)" by (simp add: marker_free_def)
  then have "merge_body script_text items = strip ?b"
    unfolding merge_body_def by (rule sub_block_pattern_unchanged)
  with c show ?thesis by simp
qed

lemma remove_existing_lines_blocked:
  assumes "\<forall>(p, d, m) \<in> set items. marker_free p" and "marker_free X" and "marker_free Y"
  shows "\<exists>X' Y'. fst (remove_existing_lines items
                         (X @ [nl] @ block_start @ Y @ [nl] @ block_end, a, u, ls))
                    = X' @ [nl] @ block_start @ Y' @ [nl] @ block_end
               \<and> marker_free X' \<and> marker_free Y' \<and> subseq (content X') (content X)"
  using assms
proof (induction items arbitrary: X Y a u ls)
  case Nil
  then show ?case by auto
next
  case (Cons i items)
  let ?t = "X @ [nl] @ block_start @ Y @ [nl] @ block_end"
  obtain p d m where i: "i = (p, d, m)" by (cases i)
  with Cons.prems have p: "marker_free p"
    and rest: "\<forall>(p, d, m) \<in> set items. marker_free p" by auto
  obtain t' n where s: "subn (metadata_line_pattern p) (\<lambda>_. []) ?t = (t', n)"
    by (cases "subn (metadata_line_pattern p) (\<lambda>_. []) ?t")
  from remove_metadata_blocked [OF p Cons.prems(2,3)] s obtain X1 Y1 where
    t': "t' = X1 @ [nl] @ block_start @ Y1 @ [nl] @ block_end"
    and m1: "marker_free X1" "marker_free Y1" and s1: "subseq (content X1) (content X)"
    by auto
  from Cons.IH [OF rest m1] obtain X' Y' where
    "fst (remove_existing_lines items
            (X1 @ [nl] @ block_start @ Y1 @ [nl] @ block_end,
             (if n > 0 then a else a + 1), (if n > 0 then u + 1 else u),
             ls @ [build_edify_line p d m]))
       = X' @ [nl] @ block_start @ Y' @ [nl] @ block_end"
    and m': "marker_free X'" "marker_free Y'" and s': "subseq (content X') (content X1)"
    by blast
  moreover have "subseq (content X') (content X)"
    using s' s1 by (rule subseq_order.trans)
  ultimately show ?case using i s t' by auto
qed

lemma dropWhile_last:
  "dropWhile P xs = [] \<or> last (dropWhile P xs) = last xs"
  by (induction xs) auto

lemma merge_body_blocked:
  assumes items: "\<forall>(p, d, m) \<in> set items. marker_free p"
    and X: "marker_free X" and Y: "marker_free Y"
  shows "marker_free (merge_body (X @ [nl] @ block_start @ Y @ [nl] @ block_end) items)
       \<and> subseq (content (merge_body (X @ [nl] @ block_start @ Y @ [nl] @ block_end) items))
                (content X)"
proof -
  let ?t = "X @ [nl] @ block_start @ Y @ [nl] @ block_end"
  let ?a = "fst (remove_existing_lines items (?t, 0, 0, []))"
  let ?b = "sub blank_lines_pattern (\<lambda>_. [nl]) ?a"
  from remove_existing_lines_blocked [OF items X Y] obtain X1 Y1 where
    a: "?a = X1 @ [nl] @ block_start @ Y1 @ [nl] @ block_end"
    and m1: "marker_free X1" "marker_free Y1" and s1: "subseq (content X1) (content X)"
    by blast
  from blank_lines_blocked [OF m1] obtain X2 Y2 where
    b: "?b = X2 @ [nl] @ block_start @ Y2 @ [nl] @ block_end"
    and m2: "marker_free X2" "marker_free Y2" and s2: "subseq (content X2) (content X1)"
    unfolding a by blast
  let ?Z = "dropWhile is_space (X2 @ [nl])"
  have s: "strip ?b = ?Z @ block_start @ (Y2 @ [nl]) @ block_end"
    unfolding b using strip_blocked [of X2 Y2] by simp
  have Zl: "?Z = [] \<or> last ?Z = nl"
    using dropWhile_last [of is_space "X2 @ [nl]"] by simp
  have "marker_free (X2 @ nl # [])" using m2(1) by (simp only: marker_free_nl) simp
  then have "marker_free (takeWhile is_space (X2 @ [nl]) @ ?Z)" by simp
  then have Zm: "marker_free ?Z" by (blast dest: marker_free_appendD)
  let ?body = "fst (subn_from block_pattern (\<lambda>_. []) True
                      (?Z @ block_start @ (Y2 @ [nl]) @ block_end))"
  have "prefix ?body ?Z"
    using m2(2) Zl Zm by (intro remove_block) (simp_all add: marker_free_def)
  then obtain nls where Z: "?Z = ?body @ nls" by (auto simp: prefix_def)
  have m: "merge_body ?t items = ?body"
    unfolding merge_body_def s by (simp add: sub_def subn_def)
  have "marker_free (?body @ nls)" using Zm Z by simp
  then have "marker_free ?body" by (blast dest: marker_free_appendD)
  moreover have "subseq (content ?body) (content X)"
  proof -
    have "subseq ?body ?Z" using \<open>prefix ?body ?Z\<close> by (rule prefix_imp_subseq)
    then have "subseq (content ?body) (content ?Z)" by (rule subseq_content)
    also have "content ?Z = content X2" by simp
    finally show ?thesis using s2 s1 by (meson subseq_order.trans)
  qed
  ultimately show ?thesis unfolding m by simp
qed

lemma managed_block_blocked:
  assumes "marker_free body" and "marker_free (join [nl] ls)"
  shows "marker_free (body @ [nl])" and "marker_free (nl # join [nl] ls)"
proof -
  from assms(1) have "marker_free (body @ nl # [])" by (simp only: marker_free_nl) simp
  then show "marker_free (body @ [nl])" by simp
  from assms(2) have "marker_free ([] @ nl # join [nl] ls)" by (simp only: marker_free_nl) simp
  then show "marker_free (nl # join [nl] ls)" by simp
qed

text \<open>
  Claim C7, amended.  Let the script hold neither marker text, or let it end
  with one managed block and hold neither marker text before the block or
  between its markers; let no path and no mode of the two entry lists hold a
  marker text.  Then merging the second list into the output of merging the
  first yields a body that holds no marker text, followed by the managed block
  that holds exactly the directives of the second list, in order: the output has
  one managed block and no marker outside it.  White space apart, the body holds
  nothing that the body of the first output does not hold, in the same order, so
  that nothing of the first block is kept.
\<close>

theorem last_write_wins:
  assumes "marker_free script_text
           \<or> (script_text = X @ [nl] @ block_start @ Y @ [nl] @ block_end
              \<and> marker_free X \<and> marker_free Y)"
    and "\<forall>(p, d, m) \<in> set items1. marker_free p \<and> marker_free m"
    and "\<forall>(p, d, m) \<in> set items2. marker_free p \<and> marker_free m"
  shows "\<exists>body1 body2.
           fst (ensure_edify_stat_lines script_text items1) =
             body1 @ managed_block
               (map (\<lambda>(edify_path, is_dir, mode). build_edify_line edify_path is_dir mode) items1)
         \<and> fst (ensure_edify_stat_lines (fst (ensure_edify_stat_lines script_text items1)) items2) =
             body2 @ managed_block
               (map (\<lambda>(edify_path, is_dir, mode). build_edify_line edify_path is_dir mode) items2)
         \<and> marker_free body1 \<and> marker_free body2
         \<and> marker_free (join [nl]
               (map (\<lambda>(edify_path, is_dir, mode). build_edify_line edify_path is_dir mode) items2))
         \<and> subseq (content body2) (content body1)"
proof -
  let ?lines = "\<lambda>items. map (\<lambda>(edify_path, is_dir, mode). build_edify_line edify_path is_dir mode) items"
  let ?body1 = "merge_body script_text items1"
  let ?t1 = "fst (ensure_edify_stat_lines script_text items1)"
  let ?body2 = "merge_body ?t1 items2"
  have t1: "?t1 = ?body1 @ managed_block (?lines items1)"
    by (rule ensure_edify_stat_lines_body)
  have t2: "fst (ensure_edify_stat_lines ?t1 items2) = ?body2 @ managed_block (?lines items2)"
    by (rule ensure_edify_stat_lines_body)
  have p1: "\<forall>(p, d, m) \<in> set items1. marker_free p" using assms(2) by auto
  have p2: "\<forall>(p, d, m) \<in> set items2. marker_free p" using assms(3) by auto
  have h1: "marker_free ?body1"
    using assms(1) merge_body_marker_free [of script_text items1]
      merge_body_blocked [OF p1, of X Y] by blast
  have l1: "marker_free (join [nl] (?lines items1))"
    using assms(2) by (rule block_lines_marker_free)
  have l2: "marker_free (join [nl] (?lines items2))"
    using assms(3) by (rule block_lines_marker_free)
  have "marker_free ?body2 \<and> subseq (content ?body2) (content (?body1 @ [nl]))"
    unfolding t1 managed_block_shape
    using managed_block_blocked [OF h1 l1] by (intro merge_body_blocked [OF p2])
  then have "marker_free ?body2 \<and> subseq (content ?body2) (content ?body1)" by simp
  with t1 t2 h1 l2 show ?thesis by blast
qed

text \<open>The theorem at a script with comments, for two lists of one directory
  each; the directive of the script for the second directory is replaced.\<close>

theorem last_write_wins_witness:
  \<open>\<not> contains block_start commented_script \<and> \<not> contains block_end commented_script
   \<and> (\<exists>body1 body2.
         fst (ensure_edify_stat_lines commented_script app_items) =
           body1 @ managed_block
             (map (\<lambda>(edify_path, is_dir, mode). build_edify_line edify_path is_dir mode)
                app_items)
       \<and> fst (ensure_edify_stat_lines (fst (ensure_edify_stat_lines commented_script app_items))
              bin_items) =
           body2 @ managed_block
             (map (\<lambda>(edify_path, is_dir, mode). build_edify_line edify_path is_dir mode)
                bin_items)
       \<and> marker_free body1 \<and> marker_free body2
       \<and> marker_free (join [nl]
             (map (\<lambda>(edify_path, is_dir, mode). build_edify_line edify_path is_dir mode)
                bin_items))
       \<and> subseq (content body2) (content body1))
   \<and> fst (ensure_edify_stat_lines (fst (ensure_edify_stat_lines commented_script app_items))
          bin_items) =
       ''# install script\<newline>ui_print("x");\<newline>ui_print("# done");\<newline>\<newline># === Tool: auto-permission ===\<newline>set_metadata_recursive("/system/bin", "uid", 0, "gid", 0, "mode", 0755);\<newline># === End Tool Block ===''\<close>
proof -
  have c: "\<not> contains block_start commented_script" "\<not> contains block_end commented_script"
    by code_simp+
  then have h: "marker_free commented_script
           \<or> (commented_script = [] @ [nl] @ block_start @ [] @ [nl] @ block_end
              \<and> marker_free [] \<and> marker_free [])"
    by (simp add: marker_free_def)
  have i: "\<forall>(p, d, m) \<in> set app_items. marker_free p \<and> marker_free m"
    "\<forall>(p, d, m) \<in> set bin_items. marker_free p \<and> marker_free m"
    unfolding app_items_def bin_items_def marker_free_def by code_simp+
  have e: \<open>fst (ensure_edify_stat_lines (fst (ensure_edify_stat_lines commented_script app_items))
          bin_items) =
       ''# install script\<newline>ui_print("x");\<newline>ui_print("# done");\<newline>\<newline># === Tool: auto-permission ===\<newline>set_metadata_recursive("/system/bin", "uid", 0, "gid", 0, "mode", 0755);\<newline># === End Tool Block ===''\<close>
    by code_simp
  from last_write_wins [OF h i] c e show ?thesis by (intro conjI)
qed

section \<open>The backup of the updater-script\<close>

lemma collect_items_fst:
  "fst (collect_items env root entries (items, r)) =
     items @ concat (map (\<lambda>e. case to_edify_path env (path_abs e) root of
                               Some (edify_path, is_dir) \<Rightarrow>
                                 [(edify_path, is_dir, replace_all ''0o'' [] (mode_expect e))]
                             | None \<Rightarrow> []) entries)"
  by (induction entries arbitrary: items r) (auto split: option.splits)

lemma collect_items_nonempty:
  assumes "\<exists>e\<in>set entries. to_edify_path env (path_abs e) root \<noteq> None"
  shows "fst (collect_items env root entries ([], r)) \<noteq> []"
proof -
  from assms obtain e where e: "e \<in> set entries"
    and s: "to_edify_path env (path_abs e) root \<noteq> None" by blast
  then obtain p d where "to_edify_path env (path_abs e) root = Some (p, d)" by auto
  then show ?thesis
    unfolding collect_items_fst using e by (auto intro!: bexI [of _ e])
qed

lemma backup_path_differs: "p @ ''.bak.'' @ ts \<noteq> p"
  by (metis append_self_conv list.distinct(1) append_is_Nil_conv)

lemma find_updater_script_exists:
  "find_updater_script fs root = Some p \<Longrightarrow> \<exists>stored. fs p = Some stored"
  by (auto simp: find_updater_script_def Let_def split: if_splits)

text \<open>
  Claim C8.  When the updater-script exists and at least one entry is in scope,
  the merge first copies the script to the backup path.  If the copy succeeds,
  the backup holds the script's content as it was, whatever happens to the script
  afterwards; if the copy fails, the script's content is unchanged, nothing is
  counted as added or updated, and the result ends with an error note.
\<close>

theorem backup_before_mutation:
  assumes "find_updater_script fs root = Some p"
    and "\<exists>e\<in>set entries. to_edify_path env (path_abs e) root \<noteq> None"
  shows "case update_updater_script env fs entries root of
           (fs', result) \<Rightarrow>
             (case copy_outcome env of
                Written \<Rightarrow> fs' (p @ ''.bak.'' @ strftime env) = fs p
              | WriteFailed left \<Rightarrow>
                  fs' p = fs p \<and> added result = 0 \<and> updated result = 0
                  \<and> result_notes result \<noteq> [] \<and> last (result_notes result) = ErrorNote)"
proof -
  let ?r0 = "\<lparr>script_path = Some p, added = 0, updated = 0, skipped = 0, result_notes = []\<rparr>"
  obtain items r where c: "collect_items env root entries ([], ?r0) = (items, r)"
    by (cases "collect_items env root entries ([], ?r0)")
  have ne: "items \<noteq> []" using collect_items_nonempty [OF assms(2), of ?r0] c by simp
  from find_updater_script_exists [OF assms(1)] obtain stored where st: "fs p = Some stored"
    by blast
  have r_counts: "added r = 0 \<and> updated r = 0"
  proof -
    have "added (snd (collect_items env root es (is, q))) = added q
        \<and> updated (snd (collect_items env root es (is, q))) = updated q" for es "is" q
      by (induction es arbitrary: "is" q) (auto split: option.splits)
    from this [of entries "[]" ?r0] c show ?thesis by simp
  qed
  note d = backup_path_differs [of p "strftime env"]
  show ?thesis
  proof (cases "copy_outcome env")
    case Written
    then show ?thesis using assms(1) c ne st d
      by (auto simp: update_updater_script_def Let_def apply_write_def
               split: prod.splits option.splits write_outcome.splits)
  next
    case (WriteFailed left)
    then show ?thesis using assms(1) c ne st d r_counts
      by (cases left)
         (auto simp: update_updater_script_def Let_def apply_write_def
               split: prod.splits option.splits)
  qed
qed

text \<open>The theorem at a ROM tree whose backup fails.\<close>

theorem backup_before_mutation_witness:
  "find_updater_script demo_script_files ''/rom''
     = Some ''/rom/META-INF/com/google/android/updater-script''
   \<and> (\<exists>e\<in>set demo_entries. to_edify_path demo_script_env (path_abs e) ''/rom'' \<noteq> None)
   \<and> (case update_updater_script demo_script_env demo_script_files demo_entries ''/rom'' of
         (fs', result) \<Rightarrow>
           (case copy_outcome demo_script_env of
              Written \<Rightarrow>
                fs' (''/rom/META-INF/com/google/android/updater-script'' @ ''.bak.''
                       @ strftime demo_script_env)
                  = demo_script_files ''/rom/META-INF/com/google/android/updater-script''
            | WriteFailed left \<Rightarrow>
                fs' ''/rom/META-INF/com/google/android/updater-script''
                  = demo_script_files ''/rom/META-INF/com/google/android/updater-script''
                \<and> added result = 0 \<and> updated result = 0
                \<and> result_notes result \<noteq> [] \<and> last (result_notes result) = ErrorNote))"
proof -
  have f: "find_updater_script demo_script_files ''/rom''
     = Some ''/rom/META-INF/com/google/android/updater-script''"
    by code_simp
  have e: "\<exists>e\<in>set demo_entries. to_edify_path demo_script_env (path_abs e) ''/rom'' \<noteq> None"
    by code_simp
  from backup_before_mutation [OF f e] f e show ?thesis by blast
qed

section \<open>The permission adapter on Windows\<close>

lemma set_perms_windows:
  assumes "is_windows self"
  shows "set_perms self target is_dir w =
          (case relpath_cwd self target of
             None \<Rightarrow> (w, None)
           | Some rel \<Rightarrow>
               (w\<lparr>perm_log := perm_log w
                    @ [LogChmod (if is_dir then 493 else 420) rel, LogChown rel]\<rparr>, Some True))"
  using assms by (simp add: set_perms_def split: option.splits)

lemma set_perms_windows_same:
  "is_windows self \<Longrightarrow> same_disk w (fst (set_perms self target is_dir w))"
  by (simp add: set_perms_windows same_disk_def split: option.splits)

lemma set_perms_dirs_windows_same:
  "is_windows self \<Longrightarrow> same_disk w (fst (set_perms_dirs self dirs (w, success)))"
proof (induction dirs arbitrary: w success)
  case Nil
  then show ?case by (simp add: same_disk_def)
next
  case (Cons d dirs)
  show ?case
  proof (cases "relpath_cwd self d")
    case None
    then show ?thesis using Cons.prems by (simp add: set_perms_windows same_disk_def)
  next
    case (Some rel)
    let ?w = "w\<lparr>perm_log := perm_log w @ [LogChmod 493 rel, LogChown rel]\<rparr>"
    have "same_disk ?w (fst (set_perms_dirs self dirs (?w, success)))"
      using Cons.IH [OF Cons.prems] .
    then show ?thesis using Some Cons.prems
      by (simp add: set_perms_windows same_disk_def)
  qed
qed

lemma set_perms_recursive_windows_same:
  "is_windows self \<Longrightarrow> same_disk w (fst (set_perms_recursive self w))"
  using set_perms_dirs_windows_same [of self w "walk_dirs self" True]
  by (auto simp: set_perms_recursive_def same_disk_def split: prod.splits)

lemma perm_finish_windows:
  "is_windows self \<Longrightarrow>
   perm_finish self m success w =
     w\<lparr>perm_log := perm_log w @ [if success then LogDone else LogDoneWithErrors],
       perm_signals := perm_signals w @ [TaskFinished success]\<rparr>"
  by (simp add: perm_finish_def Let_def)

text \<open>
  Claim C10.  On Windows a run of the permission adapter changes no mode, no
  owner and no file, so the updater-script is as it was, and the only signals it
  emits are task-finished signals: the script update is never started, whatever
  \<^verbatim>\<open>update_script\<close> and \<^verbatim>\<open>rom_root\<close> are.
\<close>

theorem windows_no_mutation:
  assumes "is_windows self"
  shows "file_mode (perm_run self w) = file_mode w
       \<and> file_owner (perm_run self w) = file_owner w
       \<and> files (perm_run self w) = files w
       \<and> (\<exists>ts. perm_signals (perm_run self w) = perm_signals w @ map TaskFinished ts)"
proof -
  let ?w0 = "w\<lparr>perm_log := perm_log w @ [LogStart (basename (path self))] @ [LogWindowsMode]\<rparr>"
  let ?goal = "\<lambda>w'. file_mode w' = file_mode w \<and> file_owner w' = file_owner w
       \<and> files w' = files w
       \<and> (\<exists>ts. perm_signals w' = perm_signals w @ map TaskFinished ts)"
  have fin: "?goal (perm_finish self m success w1)" if "same_disk w w1" for m success w1
  proof -
    have "perm_signals (perm_finish self m success w1) = perm_signals w @ map TaskFinished [success]"
      using that assms by (simp add: perm_finish_windows same_disk_def)
    moreover have "file_mode (perm_finish self m success w1) = file_mode w"
      "file_owner (perm_finish self m success w1) = file_owner w"
      "files (perm_finish self m success w1) = files w"
      using that assms by (simp_all add: perm_finish_windows same_disk_def)
    ultimately show ?thesis by blast
  qed
  have keep: "?goal w1" if "same_disk w w1" for w1
  proof -
    have "perm_signals w1 = perm_signals w @ map TaskFinished []" using that by (simp add: same_disk_def)
    moreover have "file_mode w1 = file_mode w" "file_owner w1 = file_owner w"
      "files w1 = files w"
      using that by (simp_all add: same_disk_def)
    ultimately show ?thesis by blast
  qed
  have s0: "same_disk w ?w0" by (simp add: same_disk_def)
  have run: "perm_run self w =
     (if action_type self = ''apk''
      then (case set_perms self (path self) False ?w0 of
              (w, None) \<Rightarrow> w
            | (w, Some success) \<Rightarrow> perm_finish self ''644'' success w)
      else if action_type self = ''dir''
      then (case set_perms self (path self) True ?w0 of
              (w, None) \<Rightarrow> w
            | (w, Some ok) \<Rightarrow>
                if \<not> ok then w\<lparr>perm_signals := perm_signals w @ [TaskFinished False]\<rparr>
                else if recursive self
                then
                  (let w = w\<lparr>perm_log := perm_log w @ [LogRecursive]\<rparr>
                   in case set_perms_recursive self w of
                        (w, success) \<Rightarrow> perm_finish self ''755'' success w)
                else perm_finish self ''755'' True w)
      else perm_finish self [] True ?w0)"
    using assms by (simp add: perm_run_def Let_def)
  show ?thesis
  proof (cases "action_type self = ''apk''")
    case True
    show ?thesis
    proof (cases "relpath_cwd self (path self)")
      case None
      then show ?thesis using True assms keep [OF s0]
        by (simp add: run set_perms_windows)
    next
      case (Some rel)
      let ?w1 = "?w0\<lparr>perm_log := perm_log ?w0 @ [LogChmod 420 rel, LogChown rel]\<rparr>"
      have "same_disk w ?w1" by (simp add: same_disk_def)
      from fin [OF this] show ?thesis using True Some assms
        by (simp add: run set_perms_windows)
    qed
  next
    case notapk: False
    show ?thesis
    proof (cases "action_type self = ''dir''")
      case False
      with notapk fin [OF s0] show ?thesis by (simp add: run)
    next
      case True
      show ?thesis
      proof (cases "relpath_cwd self (path self)")
        case None
        then show ?thesis using True notapk assms keep [OF s0]
          by (simp add: run set_perms_windows)
      next
        case (Some rel)
        let ?w1 = "?w0\<lparr>perm_log := perm_log ?w0 @ [LogChmod 493 rel, LogChown rel]\<rparr>"
        have s1: "same_disk w ?w1" by (simp add: same_disk_def)
        show ?thesis
        proof (cases "recursive self")
          case False
          with fin [OF s1] show ?thesis using True notapk Some assms
            by (simp add: run set_perms_windows)
        next
          case rec: True
          let ?w2 = "?w1\<lparr>perm_log := perm_log ?w1 @ [LogRecursive]\<rparr>"
          obtain w3 success where r: "set_perms_recursive self ?w2 = (w3, success)"
            by (cases "set_perms_recursive self ?w2")
          have "same_disk ?w2 w3"
            using set_perms_recursive_windows_same [OF assms, of ?w2] r by simp
          then have "same_disk w w3" by (simp add: same_disk_def)
          from fin [OF this] show ?thesis using True notapk Some assms rec r
            by (simp add: run set_perms_windows Let_def)
        qed
      qed
    qed
  qed
qed

text \<open>The theorem at a recursive request that asks for the script update.\<close>

theorem windows_no_mutation_witness:
  "is_windows demo_perm_thread \<and> update_script demo_perm_thread
   \<and> file_mode (perm_run demo_perm_thread demo_perm_world) = file_mode demo_perm_world
   \<and> file_owner (perm_run demo_perm_thread demo_perm_world) = file_owner demo_perm_world
   \<and> files (perm_run demo_perm_thread demo_perm_world) = files demo_perm_world
   \<and> (\<exists>ts. perm_signals (perm_run demo_perm_thread demo_perm_world)
              = perm_signals demo_perm_world @ map TaskFinished ts)"
proof -
  have w: "is_windows demo_perm_thread" "update_script demo_perm_thread" by code_simp+
  from windows_no_mutation [OF w(1), of demo_perm_world] w show ?thesis by blast
qed

section \<open>The run of the patch pipeline\<close>

lemma check_cancel_False [simp]:
  "\<not> cancel_requested self k \<Longrightarrow> check_cancel self k w = (w, False)"
  by (simp add: check_cancel_def)

lemma check_cancel_True [simp]:
  "cancel_requested self k \<Longrightarrow>
   check_cancel self k w = (w\<lparr>signals := signals w @ [CancelledSignal]\<rparr>, True)"
  by (simp add: check_cancel_def)

lemma sort_eq_Nil [simp]: "(sort xs = []) = (xs = [])"
  by (metis length_0_conv length_sort)

text \<open>
  Claim C9.  In a run that reaches the check after the disassembly (the jars
  exist, the archive holds a unit, every disassembly succeeds, no cancellation is
  seen at the two earlier checks) and finds cancellation requested there, the
  signals are the two progress marks and the cancellation signal, with no
  finished signal; no archive on disk is written, and the temporary directory is
  removed.
\<close>

theorem cancel_after_disassembly:
  assumes "jar_exists self ''baksmali.jar''" and "jar_exists self ''smali.jar''"
    and "\<not> cancel_requested self 0" and "\<not> cancel_requested self 1"
    and "archives w (input_file self) = Some zin"
    and "filter is_dex (map fst zin) \<noteq> []"
    and "list_all (baksmali_ok self) (sort (filter is_dex (map fst zin)))"
    and "cancel_requested self 2"
  shows "signals (run self w) = signals w @ [Progress 5, Progress 10, CancelledSignal]
       \<and> archives (run self w) = archives w
       \<and> \<not> temp_dir (run self w) \<and> smali_files (run self w) = []
       \<and> crashed (run self w) = crashed w"
  using assms by (simp add: run_def run_body_def run_decompile_def Let_def)

text \<open>The theorem at a run cancelled after disassembly.\<close>

theorem cancel_after_disassembly_witness:
  "signals (run cancelling_thread demo_world) =
     signals demo_world @ [Progress 5, Progress 10, CancelledSignal]
   \<and> archives (run cancelling_thread demo_world) = archives demo_world
   \<and> \<not> temp_dir (run cancelling_thread demo_world)
   \<and> smali_files (run cancelling_thread demo_world) = []
   \<and> crashed (run cancelling_thread demo_world) = crashed demo_world"
proof -
  have "jar_exists cancelling_thread ''baksmali.jar''" "jar_exists cancelling_thread ''smali.jar''"
    "\<not> cancel_requested cancelling_thread 0" "\<not> cancel_requested cancelling_thread 1"
    "archives demo_world (input_file cancelling_thread) = Some demo_archive"
    "filter is_dex (map fst demo_archive) \<noteq> []"
    "list_all (baksmali_ok cancelling_thread) (sort (filter is_dex (map fst demo_archive)))"
    "cancel_requested cancelling_thread 2"
    by code_simp+
  then show ?thesis by (rule cancel_after_disassembly)
qed

lemma find_in_walk_suffix:
  "find_in_walk n ws = Some p \<Longrightarrow> suffix n p"
  by (induction ws) (auto simp: path_join_def suffix_def split: if_splits)

lemma find_smali_file_suffix:
  "find_smali_file l n = Some p \<Longrightarrow> suffix n p"
  by (induction l) (auto dest: find_in_walk_suffix split: if_splits option.splits)

lemma target_paths_differ:
  assumes "find_smali_file l ''SystemAppOpsHelper.smali'' = Some pa"
    and "find_smali_file l ''MockLocationProvider.smali'' = Some pb"
  shows "pa \<noteq> pb"
proof
  assume eq: "pa = pb"
  from find_smali_file_suffix [OF assms(1)] obtain x
    where a: "pa = x @ ''SystemAppOpsHelper.smali''" by (auto simp: suffix_def)
  from find_smali_file_suffix [OF assms(2)] obtain y
    where b: "pb = y @ ''MockLocationProvider.smali''" by (auto simp: suffix_def)
  have "take 9 (rev pa) = ''ilams.rep''" unfolding a by simp
  moreover have "take 9 (rev pb) = ''ilams.red''" unfolding b by simp
  ultimately show False using eq by simp
qed

lemma patch_app_ops_frame:
  "signals (fst (patch_system_app_ops_helper self w)) = signals w
   \<and> archives (fst (patch_system_app_ops_helper self w)) = archives w
   \<and> temp_dir (fst (patch_system_app_ops_helper self w)) = temp_dir w
   \<and> crashed (fst (patch_system_app_ops_helper self w)) = crashed w"
  by (auto simp: patch_system_app_ops_helper_def write_smali_def Let_def
           split: option.splits prod.splits)

lemma patch_mock_frame:
  "signals (fst (patch_mock_location_provider self w)) = signals w
   \<and> archives (fst (patch_mock_location_provider self w)) = archives w
   \<and> temp_dir (fst (patch_mock_location_provider self w)) = temp_dir w
   \<and> crashed (fst (patch_mock_location_provider self w)) = crashed w"
  by (auto simp: patch_mock_location_provider_def write_smali_def Let_def
           split: option.splits prod.splits)

lemma patched1_iff:
  assumes "smali_files w = strip_all_debug_lines self (disassembly self)"
  shows "snd (patch_system_app_ops_helper self w) = (rule_a_occurrences self > 0)"
  using assms
  by (auto simp: patch_system_app_ops_helper_def rule_a_occurrences_def read_smali_def Let_def
           split: option.splits prod.splits)

lemma patch_app_ops_other_file:
  assumes "find_smali_file (listing self) ''MockLocationProvider.smali'' = Some pb"
  shows "map_of (smali_files (fst (patch_system_app_ops_helper self w))) pb
         = map_of (smali_files w) pb"
proof (cases "find_smali_file (listing self) ''SystemAppOpsHelper.smali''")
  case None
  then show ?thesis by (simp add: patch_system_app_ops_helper_def)
next
  case (Some pa)
  from target_paths_differ [OF Some assms] have "pa \<noteq> pb" .
  then show ?thesis using Some
    by (auto simp: patch_system_app_ops_helper_def write_smali_def Let_def update_conv'
             split: option.splits prod.splits)
qed

lemma patched2_iff:
  assumes "smali_files w = strip_all_debug_lines self (disassembly self)"
  shows "snd (patch_mock_location_provider self (fst (patch_system_app_ops_helper self w)))
         = (rule_b_occurrences self > 0)"
proof (cases "find_smali_file (listing self) ''MockLocationProvider.smali''")
  case None
  then show ?thesis
    by (simp add: patch_mock_location_provider_def rule_b_occurrences_def)
next
  case (Some pb)
  from patch_app_ops_other_file [OF Some, of w] assms Some show ?thesis
    by (auto simp: patch_mock_location_provider_def rule_b_occurrences_def read_smali_def
                   Let_def split: option.splits prod.splits)
qed

lemma copy_progress_no_finish: "PatchFinished b r \<notin> set (copy_progress t n)"
  by (auto simp: copy_progress_def)

lemma write_archive_signals:
  "\<exists>sigs. signals (fst (write_archive self target zin w)) = signals w @ sigs
          \<and> PatchFinished False NoPatchApplied \<notin> set sigs"
  by (cases "repack_fails self")
     (auto simp: write_archive_def Let_def copy_progress_no_finish)

lemma run_save_signals:
  "\<exists>sigs. signals (run_save self w) = signals w @ sigs
          \<and> PatchFinished False NoPatchApplied \<notin> set sigs"
proof (cases "archives w (input_file self)")
  case None
  then show ?thesis by (simp add: run_save_def)
next
  case (Some zin)
  show ?thesis
  proof (cases "overwrite_original self")
    case True
    obtain w1 ok where wa: "write_archive self (input_file self @ ''.tmp'') zin w = (w1, ok)"
      by (cases "write_archive self (input_file self @ ''.tmp'') zin w")
    from write_archive_signals [of self "input_file self @ ''.tmp''" zin w] wa
    obtain sigs where "signals w1 = signals w @ sigs"
      "PatchFinished False NoPatchApplied \<notin> set sigs" by auto
    then show ?thesis using Some True wa
      by (auto simp: run_save_def save_overwrite_def Let_def)
  next
    case False
    let ?t = "path_join (patched_dir self) (basename (input_file self))"
    obtain w1 ok where wa: "write_archive self ?t zin w = (w1, ok)"
      by (cases "write_archive self ?t zin w")
    from write_archive_signals [of self ?t zin w] wa
    obtain sigs where "signals w1 = signals w @ sigs"
      "PatchFinished False NoPatchApplied \<notin> set sigs" by auto
    then show ?thesis using Some False wa
      by (auto simp: run_save_def save_side_output_def Let_def)
  qed
qed

lemma run_recompile_signals:
  "\<exists>sigs. signals (run_recompile self w) = signals w @ sigs
          \<and> PatchFinished False NoPatchApplied \<notin> set sigs"
proof -
  from run_save_signals [of self "w\<lparr>signals := signals w @ [Progress 90]\<rparr>"]
  obtain sigs where
    "signals (run_save self (w\<lparr>signals := signals w @ [Progress 90]\<rparr>))
       = signals w @ Progress 90 # sigs"
    "PatchFinished False NoPatchApplied \<notin> set (Progress 90 # sigs)" by auto
  then show ?thesis
    by (auto simp: run_recompile_def check_cancel_def)
qed

text \<open>
  Claim C5.  In a run that reaches the rule criterion (the jars exist, the archive
  holds a unit, every disassembly succeeds, no cancellation is seen at the first
  five checks), the failure signal of the criterion is emitted if and only if
  Rule A and Rule B both applied no occurrence; otherwise the run goes on with
  the reassembly, from a state in which no archive has been written.
\<close>

theorem pipeline_pass_criterion:
  assumes "jar_exists self ''baksmali.jar''" and "jar_exists self ''smali.jar''"
    and "\<not> cancel_requested self 0" and "\<not> cancel_requested self 1"
    and "\<not> cancel_requested self 2" and "\<not> cancel_requested self 3"
    and "\<not> cancel_requested self 4"
    and "archives w (input_file self) = Some zin"
    and "filter is_dex (map fst zin) \<noteq> []"
    and "list_all (baksmali_ok self) (sort (filter is_dex (map fst zin)))"
  shows "\<exists>sigs wp.
           signals (run self w) = signals w @ sigs
         \<and> (PatchFinished False NoPatchApplied \<in> set sigs)
             = (rule_a_occurrences self = 0 \<and> rule_b_occurrences self = 0)
         \<and> archives wp = archives w
         \<and> signals wp = signals w @ [Progress 5, Progress 10, Progress 40, Progress 50,
                                       Progress 60]
         \<and> run self w =
             (if rule_a_occurrences self = 0 \<and> rule_b_occurrences self = 0
              then wp\<lparr>signals := signals wp @ [PatchFinished False NoPatchApplied]\<rparr>
              else run_recompile self wp)\<lparr>temp_dir := False, smali_files := []\<rparr>"
proof -
  let ?w1 = "w\<lparr>signals := signals w @ [Progress 5], temp_dir := True,
               signals := signals w @ [Progress 5, Progress 10],
               smali_files := disassembly self,
               signals := signals w @ [Progress 5, Progress 10, Progress 40]\<rparr>"
  let ?w2 = "(remove_debug_lines self ?w1)
               \<lparr>signals := signals w @ [Progress 5, Progress 10, Progress 40, Progress 50]\<rparr>"
  let ?wa = "fst (patch_system_app_ops_helper self ?w2)"
  let ?wb = "fst (patch_mock_location_provider self ?wa)"
  let ?wp = "?wb\<lparr>signals := signals ?wb @ [Progress 60]\<rparr>"
  let ?both = "rule_a_occurrences self = 0 \<and> rule_b_occurrences self = 0"
  have files2: "smali_files ?w2 = strip_all_debug_lines self (disassembly self)"
    by (simp add: remove_debug_lines_def)
  have p1: "snd (patch_system_app_ops_helper self ?w2) = (rule_a_occurrences self > 0)"
    using patched1_iff [OF files2] .
  have p2: "snd (patch_mock_location_provider self ?wa) = (rule_b_occurrences self > 0)"
    using patched2_iff [OF files2] .
  have sig_wp: "signals ?wp = signals w @ [Progress 5, Progress 10, Progress 40, Progress 50,
                                           Progress 60]"
    using patch_mock_frame [of self ?wa] patch_app_ops_frame [of self ?w2]
    by (simp add: remove_debug_lines_def)
  have arch_wp: "archives ?wp = archives w"
    using patch_mock_frame [of self ?wa] patch_app_ops_frame [of self ?w2]
    by (simp add: remove_debug_lines_def)
  have patch: "run_patch self (w\<lparr>signals := signals w @ [Progress 5], temp_dir := True,
               signals := signals w @ [Progress 5, Progress 10],
               smali_files := disassembly self\<rparr>) =
        (if ?both then ?wp\<lparr>signals := signals ?wp @ [PatchFinished False NoPatchApplied]\<rparr>
         else run_recompile self ?wp)"
    using assms(6,7)
    by (simp add: run_patch_def Let_def case_prod_beta remove_debug_lines_def
                  patched1_iff patched2_iff)
  have run: "run self w =
        (if ?both then ?wp\<lparr>signals := signals ?wp @ [PatchFinished False NoPatchApplied]\<rparr>
         else run_recompile self ?wp)\<lparr>temp_dir := False, smali_files := []\<rparr>"
    using assms patch
    by (simp add: run_def run_body_def run_decompile_def Let_def)
  define wp where "wp = ?wp"
  have sig: "signals wp = signals w @ [Progress 5, Progress 10, Progress 40, Progress 50,
                                        Progress 60]"
    unfolding wp_def by (rule sig_wp)
  have arch: "archives wp = archives w"
    unfolding wp_def by (rule arch_wp)
  have run': "run self w =
        (if ?both then wp\<lparr>signals := signals wp @ [PatchFinished False NoPatchApplied]\<rparr>
         else run_recompile self wp)\<lparr>temp_dir := False, smali_files := []\<rparr>"
    unfolding wp_def by (rule run)
  show ?thesis
  proof (cases ?both)
    case True
    let ?sigs = "[Progress 5, Progress 10, Progress 40, Progress 50, Progress 60,
                  PatchFinished False NoPatchApplied]"
    have "signals (run self w) = signals w @ ?sigs"
      unfolding run' using True sig by simp
    moreover have "(PatchFinished False NoPatchApplied \<in> set ?sigs) = ?both"
      using True by simp
    ultimately show ?thesis using arch sig run' by blast
  next
    case False
    from run_recompile_signals [of self wp] obtain sigs where
      s: "signals (run_recompile self wp) = signals wp @ sigs"
      and n: "PatchFinished False NoPatchApplied \<notin> set sigs" by blast
    let ?sigs = "[Progress 5, Progress 10, Progress 40, Progress 50, Progress 60] @ sigs"
    have "signals (run self w) = signals w @ ?sigs"
      unfolding run' using False s sig by auto
    moreover have "(PatchFinished False NoPatchApplied \<in> set ?sigs) = ?both"
      using False n by simp
    ultimately show ?thesis using arch sig run' by blast
  qed
qed

text \<open>The theorem at a run in which Rule A applies nothing and Rule B applies once.\<close>

theorem pipeline_pass_criterion_witness:
  "rule_a_occurrences demo_thread = 0 \<and> rule_b_occurrences demo_thread = 1
   \<and> (\<exists>sigs wp.
         signals (run demo_thread demo_world) = signals demo_world @ sigs
       \<and> (PatchFinished False NoPatchApplied \<in> set sigs)
           = (rule_a_occurrences demo_thread = 0 \<and> rule_b_occurrences demo_thread = 0)
       \<and> archives wp = archives demo_world
       \<and> signals wp = signals demo_world @ [Progress 5, Progress 10, Progress 40, Progress 50,
                                              Progress 60]
       \<and> run demo_thread demo_world =
           (if rule_a_occurrences demo_thread = 0 \<and> rule_b_occurrences demo_thread = 0
            then wp\<lparr>signals := signals wp @ [PatchFinished False NoPatchApplied]\<rparr>
            else run_recompile demo_thread wp)\<lparr>temp_dir := False, smali_files := []\<rparr>)"
proof -
  have occ: "rule_a_occurrences demo_thread = 0" "rule_b_occurrences demo_thread = 1"
    by code_simp+
  have "jar_exists demo_thread ''baksmali.jar''" "jar_exists demo_thread ''smali.jar''"
    "\<not> cancel_requested demo_thread 0" "\<not> cancel_requested demo_thread 1"
    "\<not> cancel_requested demo_thread 2" "\<not> cancel_requested demo_thread 3"
    "\<not> cancel_requested demo_thread 4"
    "archives demo_world (input_file demo_thread) = Some demo_archive"
    "filter is_dex (map fst demo_archive) \<noteq> []"
    "list_all (baksmali_ok demo_thread) (sort (filter is_dex (map fst demo_archive)))"
    by code_simp+
  from pipeline_pass_criterion [OF this] occ show ?thesis by blast
qed

text \<open>
  Claim C6 says that both output modes write the archive through a temporary file
  and leave the destination untouched on failure.  In the side-output mode the
  archive is opened at the destination itself: when writing fails after the
  first member, the file that was there is replaced by the partial archive.
\<close>

theorem side_output_overwritten_on_failure:
  "archives demo_world ''/tool/Patched/services.jar'' = Some [(''earlier'', ''output'')]
   \<and> signals (run failing_side_output_thread demo_world) =
       [Progress 5, Progress 10, Progress 40, Progress 50, Progress 60, Progress 90,
        PatchFinished False WriteError]
   \<and> archives (run failing_side_output_thread demo_world) ''/tool/Patched/services.jar'' =
       Some [(''META-INF/MANIFEST.MF'', ''manifest'')]"
  by code_simp

text \<open>When writing fails inside the second member, the part of it that was
  written is in the file at the destination as well.\<close>

lemma side_output_partial_member:
  "archives (run (demo_thread\<lparr>repack_fails := FailsDuring 1 3\<rparr>) demo_world)
     ''/tool/Patched/services.jar'' =
       Some [(''META-INF/MANIFEST.MF'', ''manifest''), (''classes.dex'', ''new'')]"
  by code_simp

text \<open>The overwrite mode does write through a temporary file: on any failure the
  original archive is as it was and the temporary file is gone.\<close>

lemma overwrite_mode_keeps_original:
  assumes "repack_fails self \<noteq> NoFailure"
  shows "archives (save_overwrite self zin w) (input_file self) = archives w (input_file self)
       \<and> archives (save_overwrite self zin w) (input_file self @ ''.tmp'') = None
       \<and> signals (save_overwrite self zin w) =
           signals (fst (write_archive self (input_file self @ ''.tmp'') zin w))
             @ [PatchFinished False WriteError]"
proof -
  have d: "input_file self @ ''.tmp'' \<noteq> input_file self" by simp
  show ?thesis using assms d
    by (cases "repack_fails self")
       (auto simp: save_overwrite_def write_archive_def Let_def)
qed

end
